theory Spec2Isabelle
  imports Main "HOL-Library.Word"
begin

unbundle bit_operations_syntax

section \<open>The decruncher's state\<close>

text \<open>
  The decruncher (the last sketch of the repository, the one with the fixed 145-entry
  table and the "Hello" stream) keeps all of its working state in file-scope static
  variables. The record below holds every one of them under its source name.

  \<^item> \<open>crunched_data\<close> stands for the pair \<open>crunched_data_ptr\<close>, \<open>crunched_data_len\<close>:
    the input array is \<open>const\<close> and is only read, so it is kept as the list of its bytes.
  \<^item> \<open>mem\<close> is the byte-addressed memory the output pointer points into;
    \<open>decompressed_data_ptr\<close> is an address in it, so that \<open>decompressed_data_ptr[i]\<close> is
    \<open>mem (decompressed_data_ptr + i)\<close>. A write past the caller's buffer is a change of
    \<open>mem\<close> outside the buffer, and two buffers are two address ranges.
  \<^item> \<open>size_t\<close> indices and the bit counter are natural numbers: the code only increments
    an index below a length it has just compared with, and only decrements the counter
    when it is positive, so no wrap-around can happen on them.
  \<^item> \<open>exod_decrunch_table_data\<close> is the 145-byte array as the list of its bytes; every
    index the code uses is at most 144.
  \<^item> \<open>uint8_t\<close> and \<open>uint16_t\<close> data are words, whose arithmetic wraps as in C.
  \<^item> \<open>int\<close> is modelled as a mathematical integer: it is taken to be wider than 16 bits
    (as on the ESP32 and the other 32-bit Arduino cores), so that every \<open>uint16_t\<close>
    converts to \<open>int\<close> unchanged.
\<close>

record dstate =
  exod_zp_bitbuf :: "8 word"
  exod_zp_bit_count :: nat
  crunched_data :: "8 word list"
  crunched_data_index :: nat
  mem :: "nat \<Rightarrow> 8 word"
  decompressed_data_ptr :: nat
  decompressed_buffer_size :: nat
  decompressed_data_index :: nat
  last_offset_val :: "16 word"
  exod_decrunch_table_data :: "8 word list"

definition COMMAND_EOS_MARKER :: "8 word" where
  "COMMAND_EOS_MARKER = 0xFF"

section \<open>Bit reader\<close>

text \<open>
  \<open>get_one_bit\<close>: refill \<open>exod_zp_bitbuf\<close> from the stream when no bit is buffered (or
  return \<open>-1\<close>, leaving everything as it is, when the stream has ended); then deliver the
  most significant bit and shift the buffer left.
\<close>

definition get_one_bit :: "dstate \<Rightarrow> int \<times> dstate" where
  "get_one_bit st =
     (if exod_zp_bit_count st = 0 \<and> \<not> crunched_data_index st < length (crunched_data st)
      then (-1, st)
      else
        let st1 = (if exod_zp_bit_count st = 0
                   then st\<lparr>exod_zp_bitbuf := crunched_data st ! crunched_data_index st,
                           crunched_data_index := crunched_data_index st + 1,
                           exod_zp_bit_count := 8\<rparr>
                   else st);
            b = (if exod_zp_bitbuf st1 AND 0x80 \<noteq> 0 then 1 else 0)
        in (b, st1\<lparr>exod_zp_bitbuf := push_bit 1 (exod_zp_bitbuf st1),
                   exod_zp_bit_count := exod_zp_bit_count st1 - 1\<rparr>))"

text \<open>
  The loop of \<open>get_n_bits\<close>: \<open>i\<close> iterations are left and \<open>v\<close> is the \<open>uint16_t value\<close>
  accumulated so far. A failed bit read returns \<open>-1\<close> at once; the bits read before it
  stay consumed.
\<close>

fun get_n_bits_loop :: "nat \<Rightarrow> 16 word \<Rightarrow> dstate \<Rightarrow> int \<times> dstate" where
  "get_n_bits_loop 0 v st = (uint v, st)"
| "get_n_bits_loop (Suc i) v st =
     (case get_one_bit st of (b, st1) \<Rightarrow>
        if b = -1 then (-1, st1)
        else get_n_bits_loop i (push_bit 1 v OR word_of_int b) st1)"

definition get_n_bits :: "nat \<Rightarrow> dstate \<Rightarrow> int \<times> dstate" where
  "get_n_bits n st =
     (if n = 0 then (0, st)
      else if n > 16 then (-1, st)
      else get_n_bits_loop n 0 st)"

section \<open>Gamma decoder\<close>

text \<open>
  The \<open>while (true)\<close> loop of \<open>get_gamma_coded_value\<close>, with \<open>unary_count\<close> as argument:
  \<open>None\<close> is its \<open>return 0\<close> (end of stream, or more than 16 zeros), \<open>Some k\<close> is the
  \<open>break\<close> at the first 1 bit with \<open>unary_count = k\<close>.
\<close>

function count_unary :: "nat \<Rightarrow> dstate \<Rightarrow> nat option \<times> dstate" where
  "count_unary unary_count st =
     (let r = get_one_bit st in
      if fst r = -1 then (None, snd r)
      else if fst r = 1 then (Some unary_count, snd r)
      else if unary_count + 1 > 16 then (None, snd r)
      else count_unary (unary_count + 1) (snd r))"
  by pat_completeness auto
termination
  by (relation "measure (\<lambda>(c, st). 17 - c)") auto

declare count_unary.simps [simp del]

text \<open>
  \<open>get_gamma_coded_value\<close>. The payload comes back from \<open>get_n_bits\<close> as an \<open>int\<close> and is
  stored in a \<open>uint16_t\<close>; it is compared with \<open>(uint16_t)-1\<close>, which is \<open>0xFFFF\<close>;
  \<open>(1 << unary_count) | value_part\<close> is computed in \<open>int\<close> and converted to the
  \<open>uint16_t\<close> return type.
\<close>

definition get_gamma_coded_value :: "dstate \<Rightarrow> 16 word \<times> dstate" where
  "get_gamma_coded_value st =
     (case count_unary 0 st of
        (None, st1) \<Rightarrow> (0, st1)
      | (Some unary_count, st1) \<Rightarrow>
          if unary_count = 0 then (1, st1)
          else
            (case get_n_bits unary_count st1 of (r, st2) \<Rightarrow>
               let value_part = (word_of_int r :: 16 word) in
               if value_part = 0xFFFF then (0, st2)
               else (word_of_int (push_bit unary_count 1 OR uint value_part), st2)))"

section \<open>Command table and command decoder\<close>

text \<open>
  \<open>init_decrunch_table\<close> fills the 145 bytes in index order: four times 32 literal entries
  \<open>(i << 2) | 0\<close> followed by \<open>(10 << 2) | 1\<close> twice and \<open>(10 << 2) | 2\<close> twice, then the
  final entry \<open>(0 << 2) | 3\<close>.
\<close>

definition init_decrunch_table :: "8 word list" where
  "init_decrunch_table =
     concat (replicate 4
       (map (\<lambda>i. push_bit 2 (of_nat i) OR 0) [0..<32] @
        [push_bit 2 10 OR 1, push_bit 2 10 OR 1, push_bit 2 10 OR 2, push_bit 2 10 OR 2]))
     @ [push_bit 2 0 OR 3]"

text \<open>
  One level of the prefix tree after its branch bit was 0: read \<open>n\<close> index bits and look
  the entry up at \<open>base + sub_idx\<close>.
\<close>

definition table_entry :: "nat \<Rightarrow> nat \<Rightarrow> dstate \<Rightarrow> 8 word \<times> dstate" where
  "table_entry base n st =
     (case get_n_bits n st of (sub_idx, st1) \<Rightarrow>
        if sub_idx = -1 then (COMMAND_EOS_MARKER, st1)
        else (exod_decrunch_table_data st1 ! (base + nat sub_idx), st1))"

definition get_coded_command_val :: "dstate \<Rightarrow> 8 word \<times> dstate" where
  "get_coded_command_val st =
     (case get_one_bit st of (bit_val, st1) \<Rightarrow>
      if bit_val = -1 then (COMMAND_EOS_MARKER, st1)
      else if bit_val = 0 then table_entry 108 5 st1
      else
     (case get_one_bit st1 of (bit_val, st2) \<Rightarrow>
      if bit_val = -1 then (COMMAND_EOS_MARKER, st2)
      else if bit_val = 0 then table_entry 36 4 st2
      else
     (case get_one_bit st2 of (bit_val, st3) \<Rightarrow>
      if bit_val = -1 then (COMMAND_EOS_MARKER, st3)
      else if bit_val = 0 then table_entry 72 3 st3
      else
     (case get_one_bit st3 of (bit_val, st4) \<Rightarrow>
      if bit_val = -1 then (COMMAND_EOS_MARKER, st4)
      else if bit_val = 0 then table_entry 0 2 st4
      else (exod_decrunch_table_data st4 ! 144, st4)))))"

section \<open>The decrunch loop\<close>

text \<open>
  Every way out of \<open>exod_decrunch\<close>, named after the place in the source: the loop
  condition turning false, the \<open>break\<close> on the end-of-stream marker, and the
  \<open>return\<close> statements inside the loop: after a literal byte that could not be read,
  after the offset bits of a length-2 or length-3 sequence that could not be read (two
  statements, one name), after a gamma-coded length of 0, after a reuse bit that could
  not be read, after a gamma-coded offset of 0, and after the "Invalid offset" message.
\<close>

datatype exit_point =
    Loop_condition
  | Break_EOS
  | Return_literal_EOS
  | Return_offset_bits
  | Return_gamma_length
  | Return_reuse_bit_EOS
  | Return_gamma_offset
  | Return_invalid_offset

text \<open>Writing one byte of output: \<open>decompressed_data_ptr[decompressed_data_index++] = b\<close>.\<close>

definition put_byte :: "8 word \<Rightarrow> dstate \<Rightarrow> dstate" where
  "put_byte b st =
     st\<lparr>mem := (mem st)(decompressed_data_ptr st + decompressed_data_index st := b),
        decompressed_data_index := decompressed_data_index st + 1\<rparr>"

text \<open>
  The literal run: \<open>n\<close> iterations are left. The loop breaks when the buffer is full and
  the function returns when a literal byte cannot be read.
\<close>

fun literal_run :: "nat \<Rightarrow> dstate \<Rightarrow> exit_point option \<times> dstate" where
  "literal_run 0 st = (None, st)"
| "literal_run (Suc n) st =
     (if decompressed_data_index st \<ge> decompressed_buffer_size st then (None, st)
      else
        (case get_n_bits 8 st of (literal_byte, st1) \<Rightarrow>
           if literal_byte = -1 then (Some Return_literal_EOS, st1)
           else literal_run n (put_byte (word_of_int literal_byte) st1)))"

text \<open>
  The copy loop: \<open>n\<close> iterations are left; each one reads the byte \<open>offset\<close> positions
  behind the write position and writes it at the write position.
\<close>

fun copy_run :: "nat \<Rightarrow> nat \<Rightarrow> dstate \<Rightarrow> dstate" where
  "copy_run 0 offset st = st"
| "copy_run (Suc n) offset st =
     (if decompressed_data_index st \<ge> decompressed_buffer_size st then st
      else copy_run n offset
             (put_byte (mem st (decompressed_data_ptr st + decompressed_data_index st - offset)) st))"

text \<open>
  The sequence branch up to the point where \<open>length\<close> and \<open>offset\<close> are known, for a
  command of type 1, 2 or 3. \<open>Inl\<close> is one of its \<open>return\<close> statements.
\<close>

definition short_sequence :: "16 word \<Rightarrow> 8 word \<Rightarrow> dstate \<Rightarrow> (exit_point + 16 word \<times> 16 word) \<times> dstate" where
  "short_sequence len val_from_table st =
     (case get_n_bits (unat val_from_table) st of (raw, st1) \<Rightarrow>
        if raw = -1 then (Inl Return_offset_bits, st1)
        else (Inr (len, word_of_int (raw + 1)), st1))"

definition gamma_sequence :: "dstate \<Rightarrow> (exit_point + 16 word \<times> 16 word) \<times> dstate" where
  "gamma_sequence st =
     (case get_gamma_coded_value st of (g, st1) \<Rightarrow>
        if g = 0 then (Inl Return_gamma_length, st1)
        else
          (case get_one_bit st1 of (reuse_bit, st2) \<Rightarrow>
             if reuse_bit = -1 then (Inl Return_reuse_bit_EOS, st2)
             else if reuse_bit = 1 then (Inr (g + 3, last_offset_val st2), st2)
             else
               (case get_gamma_coded_value st2 of (offset, st3) \<Rightarrow>
                  if offset = 0 then (Inl Return_gamma_offset, st3)
                  else (Inr (g + 3, offset), st3\<lparr>last_offset_val := offset\<rparr>))))"

definition sequence_params :: "8 word \<Rightarrow> 8 word \<Rightarrow> dstate \<Rightarrow> (exit_point + 16 word \<times> 16 word) \<times> dstate" where
  "sequence_params type val_from_table st =
     (if type = 1 then short_sequence 2 val_from_table st
      else if type = 2 then short_sequence 3 val_from_table st
      else gamma_sequence st)"

text \<open>
  The check and the copy under \<open>if (is_sequence)\<close>.
\<close>

definition apply_sequence :: "16 word \<Rightarrow> 16 word \<Rightarrow> dstate \<Rightarrow> exit_point option \<times> dstate" where
  "apply_sequence len offset st =
     (if offset = 0 \<or> unat offset > decompressed_data_index st
      then (Some Return_invalid_offset, st)
      else (None, copy_run (unat len) (unat offset) st))"

text \<open>
  One iteration of the \<open>while\<close> loop. \<open>None\<close> means that the iteration ran to its end and
  the loop condition is tested again.
\<close>

definition decrunch_body :: "dstate \<Rightarrow> exit_point option \<times> dstate" where
  "decrunch_body st =
     (case get_coded_command_val st of (command_byte, st1) \<Rightarrow>
        if command_byte = COMMAND_EOS_MARKER then (Some Break_EOS, st1)
        else
          let type = command_byte AND 3;
              val_from_table = drop_bit 2 command_byte
          in if type = 0
             then literal_run (unat (ucast val_from_table + 1 :: 16 word)) st1
             else
               (case sequence_params type val_from_table st1 of
                  (Inl e, st2) \<Rightarrow> (Some e, st2)
                | (Inr (len, offset), st2) \<Rightarrow> apply_sequence len offset st2))"

text \<open>
  The \<open>while\<close> loop. Whether it ever stops is not assumed: the result is an option, and a
  run that went on for ever would be \<open>None\<close>.
\<close>

partial_function (option) decrunch_loop :: "dstate \<Rightarrow> (exit_point \<times> dstate) option" where
  "decrunch_loop st =
     (if decompressed_data_index st < decompressed_buffer_size st
      then (case decrunch_body st of
              (Some e, st1) \<Rightarrow> Some (e, st1)
            | (None, st1) \<Rightarrow> decrunch_loop st1)
      else Some (Loop_condition, st))"

declare decrunch_loop.simps [code]

text \<open>
  \<open>exod_decrunch\<close>: the prologue overwrites every static variable (the table through
  \<open>init_decrunch_table\<close>), whatever an earlier call left in them, then the loop runs. The
  first argument is the state of the static variables and of memory at the call.
\<close>

definition exod_reset :: "dstate \<Rightarrow> 8 word list \<Rightarrow> nat \<Rightarrow> nat \<Rightarrow> dstate" where
  "exod_reset g in_data out_buffer out_max_len =
     g\<lparr>crunched_data := in_data,
       crunched_data_index := 0,
       decompressed_data_ptr := out_buffer,
       decompressed_buffer_size := out_max_len,
       decompressed_data_index := 0,
       exod_zp_bit_count := 0,
       exod_zp_bitbuf := 0,
       last_offset_val := 0,
       exod_decrunch_table_data := init_decrunch_table\<rparr>"

definition exod_decrunch :: "dstate \<Rightarrow> 8 word list \<Rightarrow> nat \<Rightarrow> nat \<Rightarrow> (exit_point \<times> dstate) option" where
  "exod_decrunch g in_data out_buffer out_max_len =
     decrunch_loop (exod_reset g in_data out_buffer out_max_len)"

section \<open>Measures, frames and test states\<close>

text \<open>
  The number of bits the reader can still deliver: those left in \<open>exod_zp_bitbuf\<close> and
  eight for every byte of the stream not fetched yet.
\<close>

definition remaining_bits :: "dstate \<Rightarrow> nat" where
  "remaining_bits st =
     exod_zp_bit_count st + 8 * (length (crunched_data st) - crunched_data_index st)"

text \<open>
  \<open>only_reads st st'\<close>: going from \<open>st\<close> to \<open>st'\<close> touched nothing but the reader (bit
  buffer, bit counter, stream index), and the reader did not move backwards.
\<close>

definition only_reads :: "dstate \<Rightarrow> dstate \<Rightarrow> bool" where
  "only_reads st st' \<longleftrightarrow>
     crunched_data st' = crunched_data st \<and>
     mem st' = mem st \<and>
     decompressed_data_ptr st' = decompressed_data_ptr st \<and>
     decompressed_buffer_size st' = decompressed_buffer_size st \<and>
     decompressed_data_index st' = decompressed_data_index st \<and>
     last_offset_val st' = last_offset_val st \<and>
     exod_decrunch_table_data st' = exod_decrunch_table_data st \<and>
     remaining_bits st' \<le> remaining_bits st"

text \<open>
  The static variables as the C runtime initialises them before \<open>setup\<close> runs (all zero,
  null pointers, a zero-filled table), over a zero-filled memory.
\<close>

definition power_on_state :: dstate where
  "power_on_state =
     \<lparr>exod_zp_bitbuf = 0, exod_zp_bit_count = 0, crunched_data = [],
      crunched_data_index = 0, mem = (\<lambda>_. 0), decompressed_data_ptr = 0,
      decompressed_buffer_size = 0, decompressed_data_index = 0, last_offset_val = 0,
      exod_decrunch_table_data = replicate 145 0\<rparr>"

text \<open>The stream of the sketch, hand-built for "Hello".\<close>

definition demo_crunched_data :: "8 word list" where
  "demo_crunched_data = [0x11, 0x21, 0x95, 0xB1, 0xB1, 0xBF, 0xC0]"

section \<open>The stream as a list of bits\<close>

text \<open>
  The bits of a byte in the order \<open>get_one_bit\<close> delivers them, most significant first,
  and the bits the reader has still to deliver: the \<open>exod_zp_bit_count\<close> buffered ones,
  then those of the bytes not fetched yet. \<open>reader_ok\<close> is the invariant of the reader:
  the counter is at most 8.
\<close>

definition byte_bits :: "8 word \<Rightarrow> bool list" where
  "byte_bits w = map (\<lambda>i. bit w (7 - i)) [0..<8]"

definition pending_bits :: "dstate \<Rightarrow> bool list" where
  "pending_bits st =
     take (exod_zp_bit_count st) (byte_bits (exod_zp_bitbuf st)) @
     concat (map byte_bits (drop (crunched_data_index st) (crunched_data st)))"

definition reader_ok :: "dstate \<Rightarrow> bool" where
  "reader_ok st \<longleftrightarrow> exod_zp_bit_count st \<le> 8"

text \<open>The unsigned number a bit list denotes, first bit most significant.\<close>

fun bits_value :: "bool list \<Rightarrow> nat" where
  "bits_value [] = 0"
| "bits_value (b # bs) = (if b then 2 ^ length bs else 0) + bits_value bs"

section \<open>The specification's decoders, on bit lists\<close>

text \<open>
  The specification's command decoder, in its words: one branch bit per level; a 0 is
  followed by a 5-, 4-, 3- or 2-bit index into the table at base 108, 36, 72 or 0; four
  1 bits select entry 144; \<open>None\<close> is "stream exhausted".
\<close>

fun spec_command_index :: "bool list \<Rightarrow> nat option" where
  "spec_command_index (False # bs) =
     (if length bs < 5 then None else Some (108 + bits_value (take 5 bs)))"
| "spec_command_index (True # False # bs) =
     (if length bs < 4 then None else Some (36 + bits_value (take 4 bs)))"
| "spec_command_index (True # True # False # bs) =
     (if length bs < 3 then None else Some (72 + bits_value (take 3 bs)))"
| "spec_command_index (True # True # True # False # bs) =
     (if length bs < 2 then None else Some (0 + bits_value (take 2 bs)))"
| "spec_command_index (True # True # True # True # bs) = Some 144"
| "spec_command_index _ = None"

text \<open>
  The specification's gamma decoder, in its words: \<open>k\<close> is the number of 0 bits before
  the first 1 bit; the \<open>k\<close> bits after that 1 bit are the payload; the result is
  \<open>(1 << k) | payload\<close>. \<open>None\<close> is a failure: the input ran out, or \<open>k\<close> exceeds 16.
\<close>

fun leading_zeros :: "bool list \<Rightarrow> nat" where
  "leading_zeros (False # bs) = Suc (leading_zeros bs)"
| "leading_zeros bs = 0"

fun after_zeros :: "bool list \<Rightarrow> bool list" where
  "after_zeros (False # bs) = after_zeros bs"
| "after_zeros bs = bs"

definition spec_gamma :: "bool list \<Rightarrow> nat option" where
  "spec_gamma bs =
     (let k = leading_zeros bs; rest = after_zeros bs in
      if rest = [] then None
      else if k > 16 then None
      else if length (tl rest) < k then None
      else Some (push_bit k 1 OR bits_value (take k (tl rest))))"

text \<open>
  What a caller of \<open>exod_decrunch\<close> can look at afterwards, together with the way the
  call ended: the number of bytes produced and the content of its buffer.
\<close>

definition observed ::
  "nat \<Rightarrow> nat \<Rightarrow> (exit_point \<times> dstate) option \<Rightarrow> (exit_point \<times> nat \<times> 8 word list) option" where
  "observed out_buffer out_max_len r =
     map_option (\<lambda>(e, st). (e, decompressed_data_index st,
                              map (\<lambda>i. mem st (out_buffer + i)) [0..<out_max_len])) r"

text \<open>
  Test inputs. \<open>reader_at in_data\<close> is the state right after the prologue of
  \<open>exod_decrunch\<close> on \<open>in_data\<close> (with a 16-byte buffer at address 0), at the point
  where the reader has not fetched anything. \<open>overlong_gamma_stream\<close> is the gamma code
  with 16 zero bits, the 1 bit, and the 16 payload bits \<open>0000000000000001\<close>.
\<close>

definition reader_at :: "8 word list \<Rightarrow> dstate" where
  "reader_at in_data = exod_reset power_on_state in_data 0 16"

definition overlong_gamma_stream :: "8 word list" where
  "overlong_gamma_stream = [0x00, 0x00, 0x80, 0x00, 0x80]"

text \<open>
  \<open>overlong_length_stream\<close> is a whole stream around that code: a one-byte literal "A",
  then the prefix 1111, the gamma code above as the length, reuse bit 0, and the gamma
  code \<open>1\<close> as the distance.
\<close>

definition overlong_length_stream :: "8 word list" where
  "overlong_length_stream = [0x01, 0x07, 0xC0, 0x00, 0x20, 0x00, 0x28]"

text \<open>
  \<open>keeps_output st st'\<close>: going from \<open>st\<close> to \<open>st'\<close> left the output (memory, buffer
  pointer, capacity, write position), the stream and the table as they were.
\<close>

definition keeps_output :: "dstate \<Rightarrow> dstate \<Rightarrow> bool" where
  "keeps_output st st' \<longleftrightarrow>
     crunched_data st' = crunched_data st \<and>
     mem st' = mem st \<and>
     decompressed_data_ptr st' = decompressed_data_ptr st \<and>
     decompressed_buffer_size st' = decompressed_buffer_size st \<and>
     decompressed_data_index st' = decompressed_data_index st \<and>
     exod_decrunch_table_data st' = exod_decrunch_table_data st"

text \<open>
  The next command in the stream is a gamma sequence (prefix 1111, table type 3), and
  the reuse bit that follows the gamma-coded length of a gamma sequence.
\<close>

definition gamma_copy_next :: "dstate \<Rightarrow> bool" where
  "gamma_copy_next st \<longleftrightarrow>
     fst (get_coded_command_val st) \<noteq> COMMAND_EOS_MARKER \<and>
     fst (get_coded_command_val st) AND 3 = 3"

definition reuse_bit_at :: "dstate \<Rightarrow> int" where
  "reuse_bit_at s = fst (get_one_bit (snd (get_gamma_coded_value s)))"

text \<open>
  More test inputs: a 16-byte buffer holding the one byte "A", and the stream of a
  one-byte literal "A" followed by two gamma sequences of length 4, the first with reuse
  bit 0 and distance 1, the second with reuse bit 1.
\<close>

definition one_A_state :: dstate where
  "one_A_state =
     (exod_reset power_on_state [] 0 16)
       \<lparr>mem := (\<lambda>_. 0)(0 := 0x41), decompressed_data_index := 1\<rparr>"

definition two_gamma_copies :: "8 word list" where
  "two_gamma_copies = [0x01, 0x07, 0xEF, 0xE0]"

section \<open>Relating two runs\<close>

text \<open>
  \<open>writes_forward st st'\<close>: going from \<open>st\<close> to \<open>st'\<close> the write position did not move
  back, it did not pass the capacity if it was within it, and memory changed only at the
  addresses of the buffer between the old and the new write position.
\<close>

definition writes_forward :: "dstate \<Rightarrow> dstate \<Rightarrow> bool" where
  "writes_forward st st' \<longleftrightarrow>
     decompressed_data_ptr st' = decompressed_data_ptr st \<and>
     decompressed_buffer_size st' = decompressed_buffer_size st \<and>
     exod_decrunch_table_data st' = exod_decrunch_table_data st \<and>
     crunched_data st' = crunched_data st \<and>
     decompressed_data_index st \<le> decompressed_data_index st' \<and>
     (decompressed_data_index st \<le> decompressed_buffer_size st \<longrightarrow>
        decompressed_data_index st' \<le> decompressed_buffer_size st) \<and>
     (\<forall>a. a < decompressed_data_ptr st + decompressed_data_index st \<or>
          decompressed_data_ptr st + decompressed_data_index st' \<le> a \<longrightarrow>
          mem st' a = mem st a)"

text \<open>
  Two runs are compared through \<open>sim\<close>: the same reader, table, last offset and write
  position (\<open>same_core\<close>), and the same bytes in the two buffers below the write position
  (\<open>agree_upto\<close>); the buffers may lie at different addresses, in different memories, and
  have different capacities. \<open>rebase\<close> replaces memory, buffer address and capacity.
  \<open>cut_short st1 st2 s1 s2\<close> is the other way two runs started in \<open>st1\<close> and \<open>st2\<close> can
  relate: the second has the smaller capacity and is full, while the first has gone on from
  the same prefix.
\<close>

definition rebase :: "(nat \<Rightarrow> 8 word) \<Rightarrow> nat \<Rightarrow> nat \<Rightarrow> dstate \<Rightarrow> dstate" where
  "rebase m p c st = st\<lparr>mem := m, decompressed_data_ptr := p, decompressed_buffer_size := c\<rparr>"

definition same_core :: "dstate \<Rightarrow> dstate \<Rightarrow> bool" where
  "same_core st1 st2 \<longleftrightarrow>
     exod_zp_bitbuf st2 = exod_zp_bitbuf st1 \<and>
     exod_zp_bit_count st2 = exod_zp_bit_count st1 \<and>
     crunched_data st2 = crunched_data st1 \<and>
     crunched_data_index st2 = crunched_data_index st1 \<and>
     exod_decrunch_table_data st2 = exod_decrunch_table_data st1 \<and>
     last_offset_val st2 = last_offset_val st1 \<and>
     decompressed_data_index st2 = decompressed_data_index st1"

definition agree_upto :: "nat \<Rightarrow> dstate \<Rightarrow> dstate \<Rightarrow> bool" where
  "agree_upto n st1 st2 \<longleftrightarrow>
     (\<forall>j<n. mem st2 (decompressed_data_ptr st2 + j) = mem st1 (decompressed_data_ptr st1 + j))"

definition sim :: "dstate \<Rightarrow> dstate \<Rightarrow> bool" where
  "sim st1 st2 \<longleftrightarrow> same_core st1 st2 \<and> agree_upto (decompressed_data_index st1) st1 st2"

definition cut_short :: "dstate \<Rightarrow> dstate \<Rightarrow> dstate \<Rightarrow> dstate \<Rightarrow> bool" where
  "cut_short st1 st2 s1 s2 \<longleftrightarrow>
     decompressed_buffer_size st2 < decompressed_buffer_size st1 \<and>
     decompressed_data_index s2 = decompressed_buffer_size st2 \<and>
     decompressed_buffer_size st2 \<le> decompressed_data_index s1 \<and>
     agree_upto (decompressed_buffer_size st2) s1 s2"

text \<open>
  Views of a result: \<open>produced\<close> is the exit and the bytes produced; \<open>summary\<close> adds the
  number of bytes and the number of stream bits left unread.
\<close>

definition produced :: "nat \<Rightarrow> (exit_point \<times> dstate) option \<Rightarrow> (exit_point \<times> 8 word list) option" where
  "produced out_buffer r =
     map_option (\<lambda>(e, st). (e, map (\<lambda>i. mem st (out_buffer + i)) [0..<decompressed_data_index st])) r"

definition hello :: "8 word list" where
  "hello = [0x48, 0x65, 0x6C, 0x6C, 0x6F]"

definition summary :: "(exit_point \<times> dstate) option \<Rightarrow> (exit_point \<times> nat \<times> 8 word list \<times> nat) option" where
  "summary r =
     map_option (\<lambda>(e, st). (e, decompressed_data_index st,
        map (\<lambda>i. mem st (decompressed_data_ptr st + i)) [0..<decompressed_data_index st],
        remaining_bits st)) r"

text \<open>
  One interleaving of two calls on the shared static variables. Call A,
  \<open>exod_decrunch(in_data, buffer_a, out_max_len)\<close>, is preempted when its prologue has
  run, before its loop; call B, \<open>exod_decrunch(in_data, buffer_b, out_max_len)\<close>, then runs
  from its prologue to its end; then call A resumes its loop, on the static variables as
  B left them. The result is what each caller finds: its exit and its buffer.
\<close>

definition preempted_after_prologue ::
  "dstate \<Rightarrow> 8 word list \<Rightarrow> nat \<Rightarrow> nat \<Rightarrow> nat \<Rightarrow>
     ((exit_point \<times> 8 word list) \<times> (exit_point \<times> 8 word list)) option" where
  "preempted_after_prologue g in_data buffer_a buffer_b out_max_len =
     (let a0 = exod_reset g in_data buffer_a out_max_len in
      case exod_decrunch a0 in_data buffer_b out_max_len of
        None \<Rightarrow> None
      | Some (exit_b, b) \<Rightarrow>
          (case decrunch_loop b of
             None \<Rightarrow> None
           | Some (exit_a, a) \<Rightarrow>
               Some ((exit_a, map (\<lambda>i. mem a (buffer_a + i)) [0..<out_max_len]),
                     (exit_b, map (\<lambda>i. mem a (buffer_b + i)) [0..<out_max_len]))))"




section \<open>The reader only reads, and never un-reads\<close>

lemma only_reads_refl [simp]: "only_reads st st"
  by (simp add: only_reads_def)

lemma only_reads_trans: "only_reads a b \<Longrightarrow> only_reads b c \<Longrightarrow> only_reads a c"
  by (simp add: only_reads_def)

lemma get_one_bit_range: "fst (get_one_bit st) \<in> {-1, 0, 1}"
  by (simp add: get_one_bit_def Let_def)

lemma get_one_bit_eos: "fst (get_one_bit st) = -1 \<Longrightarrow> snd (get_one_bit st) = st"
  by (simp add: get_one_bit_def Let_def split: if_splits)

lemma get_one_bit_consumes:
  "fst (get_one_bit st) \<noteq> -1 \<Longrightarrow> Suc (remaining_bits (snd (get_one_bit st))) = remaining_bits st"
  by (auto simp add: get_one_bit_def Let_def remaining_bits_def split: if_splits)

lemma get_one_bit_reads: "only_reads st (snd (get_one_bit st))"
  by (auto simp add: get_one_bit_def Let_def remaining_bits_def only_reads_def)

lemma get_n_bits_loop_reads: "only_reads st (snd (get_n_bits_loop n v st))"
proof (induction n arbitrary: v st)
  case 0
  then show ?case by simp
next
  case (Suc n)
  have "only_reads st (snd (get_n_bits_loop n w (snd (get_one_bit st))))" for w
    by (rule only_reads_trans [OF get_one_bit_reads Suc.IH])
  then show ?case
    by (simp add: case_prod_unfold get_one_bit_reads)
qed

lemma get_n_bits_reads: "only_reads st (snd (get_n_bits n st))"
  by (simp add: get_n_bits_def get_n_bits_loop_reads)

lemma count_unary_reads: "only_reads st (snd (count_unary k st))"
proof (induction k st rule: count_unary.induct)
  case (1 k st)
  have "only_reads st (snd (count_unary (k + 1) (snd (get_one_bit st))))"
    if "fst (get_one_bit st) \<noteq> -1" "fst (get_one_bit st) \<noteq> 1" "\<not> k + 1 > 16"
    by (rule only_reads_trans [OF get_one_bit_reads "1.IH" [OF refl that]])
  then show ?case
    by (subst count_unary.simps) (simp add: Let_def get_one_bit_reads)
qed

lemma get_gamma_coded_value_reads: "only_reads st (snd (get_gamma_coded_value st))"
proof -
  have "only_reads st (snd (get_n_bits k (snd (count_unary 0 st))))" for k
    by (rule only_reads_trans [OF count_unary_reads get_n_bits_reads])
  then show ?thesis
    by (simp add: get_gamma_coded_value_def Let_def case_prod_unfold count_unary_reads
        split: option.splits)
qed

lemma table_entry_reads: "only_reads st (snd (table_entry base n st))"
  using get_n_bits_reads [of st n]
  by (simp add: table_entry_def case_prod_unfold)

lemma get_coded_command_val_reads: "only_reads st (snd (get_coded_command_val st))"
proof -
  define s1 where "s1 = snd (get_one_bit st)"
  define s2 where "s2 = snd (get_one_bit s1)"
  define s3 where "s3 = snd (get_one_bit s2)"
  define s4 where "s4 = snd (get_one_bit s3)"
  have r1: "only_reads st s1"
    unfolding s1_def by (rule get_one_bit_reads)
  have r2: "only_reads st s2"
    unfolding s2_def by (rule only_reads_trans [OF r1 get_one_bit_reads])
  have r3: "only_reads st s3"
    unfolding s3_def by (rule only_reads_trans [OF r2 get_one_bit_reads])
  have r4: "only_reads st s4"
    unfolding s4_def by (rule only_reads_trans [OF r3 get_one_bit_reads])
  have t: "only_reads st (snd (table_entry b n s))" if "only_reads st s" for b n s
    by (rule only_reads_trans [OF that table_entry_reads])
  show ?thesis
    unfolding get_coded_command_val_def case_prod_unfold
    by (simp add: s1_def [symmetric] s2_def [symmetric] s3_def [symmetric] s4_def [symmetric]
        r1 r2 r3 r4 t)
qed


lemma only_reads_bits: "only_reads st st' \<Longrightarrow> remaining_bits st' \<le> remaining_bits st"
  by (simp add: only_reads_def)

lemma get_coded_command_val_consumes:
  assumes "fst (get_coded_command_val st) \<noteq> COMMAND_EOS_MARKER"
  shows "remaining_bits (snd (get_coded_command_val st)) < remaining_bits st"
proof -
  define s1 where "s1 = snd (get_one_bit st)"
  have first: "fst (get_one_bit st) \<noteq> -1"
    using assms by (auto simp add: get_coded_command_val_def case_prod_unfold)
  then have less: "remaining_bits s1 < remaining_bits st"
    using get_one_bit_consumes [of st] by (simp add: s1_def)
  have rest: "only_reads s1 (snd (get_coded_command_val st))"
  proof -
    define s2 where "s2 = snd (get_one_bit s1)"
    define s3 where "s3 = snd (get_one_bit s2)"
    define s4 where "s4 = snd (get_one_bit s3)"
    have r2: "only_reads s1 s2"
      unfolding s2_def by (rule get_one_bit_reads)
    have r3: "only_reads s1 s3"
      unfolding s3_def by (rule only_reads_trans [OF r2 get_one_bit_reads])
    have r4: "only_reads s1 s4"
      unfolding s4_def by (rule only_reads_trans [OF r3 get_one_bit_reads])
    have t: "only_reads s1 (snd (table_entry b n s))" if "only_reads s1 s" for b n s
      by (rule only_reads_trans [OF that table_entry_reads])
    show ?thesis
      unfolding get_coded_command_val_def case_prod_unfold
      by (simp add: s1_def [symmetric] s2_def [symmetric] s3_def [symmetric] s4_def [symmetric]
          r2 r3 r4 t)
  qed
  from only_reads_bits [OF rest] less show ?thesis by simp
qed

lemma put_byte_bits [simp]: "remaining_bits (put_byte b st) = remaining_bits st"
  by (simp add: put_byte_def remaining_bits_def)

lemma literal_run_bits: "remaining_bits (snd (literal_run n st)) \<le> remaining_bits st"
proof (induction n arbitrary: st)
  case 0
  then show ?case by simp
next
  case (Suc n)
  have "remaining_bits (snd (literal_run n (put_byte b (snd (get_n_bits 8 st))))) \<le> remaining_bits st" for b
    using Suc.IH [of "put_byte b (snd (get_n_bits 8 st))"]
      only_reads_bits [OF get_n_bits_reads [of st 8]] by simp
  then show ?case
    using only_reads_bits [OF get_n_bits_reads [of st 8]]
    by (simp add: case_prod_unfold)
qed

lemma copy_run_bits [simp]: "remaining_bits (copy_run n d st) = remaining_bits st"
  by (induction n arbitrary: st) simp_all

lemma short_sequence_bits:
  "remaining_bits (snd (short_sequence len v st)) \<le> remaining_bits st"
  using only_reads_bits [OF get_n_bits_reads [of st "unat v"]]
  by (simp add: short_sequence_def case_prod_unfold)

lemma gamma_sequence_bits:
  "remaining_bits (snd (gamma_sequence st)) \<le> remaining_bits st"
proof -
  define s1 where "s1 = snd (get_gamma_coded_value st)"
  define s2 where "s2 = snd (get_one_bit s1)"
  define s3 where "s3 = snd (get_gamma_coded_value s2)"
  have b1: "remaining_bits s1 \<le> remaining_bits st"
    unfolding s1_def by (rule only_reads_bits [OF get_gamma_coded_value_reads])
  have b2: "remaining_bits s2 \<le> remaining_bits st"
    using only_reads_bits [OF get_one_bit_reads [of s1]] b1 by (simp add: s2_def)
  have b3: "remaining_bits s3 \<le> remaining_bits st"
    using only_reads_bits [OF get_gamma_coded_value_reads [of s2]] b2 by (simp add: s3_def)
  have b4: "remaining_bits (s3\<lparr>last_offset_val := w\<rparr>) \<le> remaining_bits st" for w
    using b3 by (simp add: remaining_bits_def)
  show ?thesis
    unfolding gamma_sequence_def case_prod_unfold
    by (simp add: s1_def [symmetric] s2_def [symmetric] s3_def [symmetric] b1 b2 b3 b4)
qed

lemma sequence_params_bits:
  "remaining_bits (snd (sequence_params t v st)) \<le> remaining_bits st"
  by (simp add: sequence_params_def short_sequence_bits gamma_sequence_bits)

lemma apply_sequence_bits [simp]:
  "remaining_bits (snd (apply_sequence len off st)) = remaining_bits st"
  by (simp add: apply_sequence_def)

lemma decrunch_body_consumes:
  assumes "fst (decrunch_body st) = None"
  shows "remaining_bits (snd (decrunch_body st)) < remaining_bits st"
proof -
  define c where "c = fst (get_coded_command_val st)"
  define s1 where "s1 = snd (get_coded_command_val st)"
  have c: "c \<noteq> COMMAND_EOS_MARKER"
    using assms by (auto simp add: decrunch_body_def case_prod_unfold c_def)
  then have less: "remaining_bits s1 < remaining_bits st"
    unfolding c_def s1_def by (rule get_coded_command_val_consumes)
  have "remaining_bits (snd (decrunch_body st)) \<le> remaining_bits s1"
    using literal_run_bits [of _ s1] sequence_params_bits [of _ _ s1] c
    by (simp add: decrunch_body_def case_prod_unfold c_def [symmetric] s1_def [symmetric]
        Let_def split: sum.splits)
  with less show ?thesis by simp
qed


section \<open>Termination of the decrunch loop\<close>

lemma decrunch_loop_returns: "\<exists>r. decrunch_loop st = Some r"
proof (induction st rule: measure_induct_rule [where f = remaining_bits])
  case (less st)
  show ?case
  proof (cases "decompressed_data_index st < decompressed_buffer_size st")
    case False
    then show ?thesis by (subst decrunch_loop.simps) simp
  next
    case True
    show ?thesis
    proof (cases "fst (decrunch_body st)")
      case (Some e)
      with True show ?thesis
        by (subst decrunch_loop.simps) (simp add: case_prod_unfold)
    next
      case None
      from less.IH [OF decrunch_body_consumes [OF None]]
      obtain r where "decrunch_loop (snd (decrunch_body st)) = Some r" ..
      with True None show ?thesis
        by (subst decrunch_loop.simps) (simp add: case_prod_unfold)
    qed
  qed
qed


text \<open>
  Claim C10. The decrunch loop returns for every state it is started in, hence
  \<open>exod_decrunch\<close> returns for every input stream and every output capacity: an
  iteration that does not leave the loop has consumed at least one bit of the stream,
  and the stream holds finitely many.
\<close>

theorem decrunch_terminates:
  "(\<exists>r. exod_decrunch g in_data out_buffer out_max_len = Some r) \<and>
   (\<exists>r. decrunch_loop st = Some r) \<and>
   (fst (decrunch_body st) = None \<longrightarrow>
      remaining_bits (snd (decrunch_body st)) < remaining_bits st)"
  using decrunch_loop_returns decrunch_body_consumes
  by (simp add: exod_decrunch_def)

theorem decrunch_terminates_witness:
  "(\<exists>r. exod_decrunch power_on_state demo_crunched_data 0 256 = Some r) \<and>
   fst (decrunch_body (exod_reset power_on_state demo_crunched_data 0 256)) = None \<and>
   remaining_bits (snd (decrunch_body (exod_reset power_on_state demo_crunched_data 0 256)))
     < remaining_bits (exod_reset power_on_state demo_crunched_data 0 256)"
proof -
  have h: "fst (decrunch_body (exod_reset power_on_state demo_crunched_data 0 256)) = None"
    by code_simp
  show ?thesis
    using h decrunch_terminates [of power_on_state demo_crunched_data 0 256
        "exod_reset power_on_state demo_crunched_data 0 256"]
    by simp
qed

section \<open>The reader against the bit list\<close>

lemma byte_bits_list:
  "byte_bits w = [bit w 7, bit w 6, bit w 5, bit w 4, bit w 3, bit w 2, bit w 1, bit w 0]"
  by (simp add: byte_bits_def upt_rec)

lemma length_byte_bits [simp]: "length (byte_bits w) = 8"
  by (simp add: byte_bits_def)

lemma take_byte_bits_shift:
  assumes "n < 8"
  shows "take (Suc n) (byte_bits w) = bit w 7 # take n (byte_bits (push_bit 1 w))"
proof -
  have "take (Suc n) (byte_bits w) = map (\<lambda>i. bit w (7 - i)) [0..<Suc n]"
    using assms by (simp add: byte_bits_def take_map del: upt_Suc)
  also have "[0..<Suc n] = 0 # map Suc [0..<n]"
    by (simp add: upt_conv_Cons map_Suc_upt del: upt_Suc)
  also have "map (\<lambda>i. bit w (7 - i)) (0 # map Suc [0..<n]) =
             bit w 7 # map (\<lambda>i. bit w (6 - i)) [0..<n]"
    by simp
  also have "map (\<lambda>i. bit w (6 - i)) [0..<n] = map (\<lambda>i. bit (push_bit 1 w) (7 - i)) [0..<n]"
  proof (rule map_cong [OF refl])
    fix i assume "i \<in> set [0..<n]"
    with assms have i: "i < 7" by simp
    then have "7 - i - 1 = 6 - i" "1 \<le> 7 - i" "7 - i < 8" by simp_all
    then show "bit w (6 - i) = bit (push_bit 1 w) (7 - i)"
      by (simp only: bit_push_bit_iff) simp
  qed
  also have "\<dots> = take n (byte_bits (push_bit 1 w))"
    using assms by (simp add: byte_bits_def take_map del: upt_Suc)
  finally show ?thesis .
qed

lemma msb_test: "(w AND 0x80 \<noteq> 0) = bit (w :: 8 word) 7"
proof -
  have "(w AND push_bit 7 1 \<noteq> 0) = bit w 7"
    by (simp only: bit_iff_and_push_bit_not_eq_0)
  then show ?thesis by simp
qed

lemma length_concat_byte_bits: "length (concat (map byte_bits xs)) = 8 * length xs"
  by (induction xs) simp_all

lemma length_pending_bits:
  "reader_ok st \<Longrightarrow> length (pending_bits st) = remaining_bits st"
  by (simp add: pending_bits_def reader_ok_def remaining_bits_def length_concat_byte_bits)

lemma get_one_bit_empty:
  assumes "reader_ok st" "pending_bits st = []"
  shows "get_one_bit st = (-1, st)"
proof -
  from assms have "remaining_bits st = 0"
    using length_pending_bits [of st] by simp
  then show ?thesis
    by (simp add: get_one_bit_def remaining_bits_def)
qed

lemma get_one_bit_Cons:
  assumes ok: "reader_ok st" and p: "pending_bits st = b # bs"
  shows "fst (get_one_bit st) = (if b then 1 else 0)"
    and "pending_bits (snd (get_one_bit st)) = bs"
    and "reader_ok (snd (get_one_bit st))"
proof -
  have both: "fst (get_one_bit st) = (if b then 1 else 0) \<and>
              pending_bits (snd (get_one_bit st)) = bs \<and> reader_ok (snd (get_one_bit st))"
  proof (cases "exod_zp_bit_count st = 0")
    case True
    with p have ne: "concat (map byte_bits (drop (crunched_data_index st) (crunched_data st))) = b # bs"
      by (simp add: pending_bits_def)
    then have lt: "crunched_data_index st < length (crunched_data st)"
      by (cases "crunched_data_index st < length (crunched_data st)") simp_all
    define w where "w = crunched_data st ! crunched_data_index st"
    have d: "drop (crunched_data_index st) (crunched_data st) =
             w # drop (Suc (crunched_data_index st)) (crunched_data st)"
      unfolding w_def using lt by (simp add: Cons_nth_drop_Suc)
    have "byte_bits w = take (Suc 7) (byte_bits w)" by simp
    also have "\<dots> = bit w 7 # take 7 (byte_bits (push_bit 1 w))"
      by (rule take_byte_bits_shift) simp
    finally have bw: "byte_bits w = bit w 7 # take 7 (byte_bits (push_bit 1 w))" .
    from ne d bw have b: "b = bit w 7"
      and bs: "bs = take 7 (byte_bits (push_bit 1 w)) @
                 concat (map byte_bits (drop (Suc (crunched_data_index st)) (crunched_data st)))"
      by simp_all
    show ?thesis
      using True lt
      by (simp add: get_one_bit_def Let_def msb_test w_def [symmetric] b bs pending_bits_def
          reader_ok_def)
  next
    case False
    then obtain n where n: "exod_zp_bit_count st = Suc n"
      by (cases "exod_zp_bit_count st") simp_all
    with ok have n8: "n < 8" by (simp add: reader_ok_def)
    define w where "w = exod_zp_bitbuf st"
    from p n have "take (Suc n) (byte_bits w) @
        concat (map byte_bits (drop (crunched_data_index st) (crunched_data st))) = b # bs"
      by (simp add: pending_bits_def w_def)
    then have b: "b = bit w 7"
      and bs: "bs = take n (byte_bits (push_bit 1 w)) @
                 concat (map byte_bits (drop (crunched_data_index st) (crunched_data st)))"
      by (simp_all add: take_byte_bits_shift [OF n8])
    show ?thesis
      using n n8
      by (simp add: get_one_bit_def Let_def msb_test w_def [symmetric] b bs pending_bits_def
          reader_ok_def)
  qed
  from both show "fst (get_one_bit st) = (if b then 1 else 0)"
    and "pending_bits (snd (get_one_bit st)) = bs"
    and "reader_ok (snd (get_one_bit st))" by simp_all
qed

lemma bits_value_bound: "bits_value bs < 2 ^ length bs"
  by (induction bs) simp_all

lemma get_n_bits_loop_enough:
  assumes "reader_ok st" "n \<le> length (pending_bits st)"
  shows "fst (get_n_bits_loop n v st) =
           uint (v * 2 ^ n + word_of_nat (bits_value (take n (pending_bits st))))
         \<and> pending_bits (snd (get_n_bits_loop n v st)) = drop n (pending_bits st)
         \<and> reader_ok (snd (get_n_bits_loop n v st))"
  using assms
proof (induction n arbitrary: v st)
  case 0
  then show ?case by simp
next
  case (Suc n)
  then obtain b bs where p: "pending_bits st = b # bs"
    by (cases "pending_bits st") simp_all
  note g = get_one_bit_Cons [OF Suc.prems(1) p]
  define s1 where "s1 = snd (get_one_bit st)"
  define v1 :: "16 word" where "v1 = push_bit 1 v OR word_of_int (if b then 1 else 0)"
  have v1: "v1 = 2 * v + (if b then 1 else 0)"
    unfolding v1_def by (simp add: or_one_eq)
  have n: "n \<le> length (pending_bits s1)"
    using Suc.prems(2) g(2) p by (simp add: s1_def)
  have ok1: "reader_ok s1"
    using g(3) by (simp add: s1_def)
  have step: "get_n_bits_loop (Suc n) v st = get_n_bits_loop n v1 s1"
    using g(1) by (simp add: case_prod_unfold s1_def v1_def)
  have len: "min (length bs) n = n"
    using n g(2) by (simp add: s1_def)
  have ps1: "pending_bits s1 = bs"
    using g(2) by (simp add: s1_def)
  have val: "v1 * 2 ^ n + word_of_nat (bits_value (take n bs)) =
             v * 2 ^ Suc n + word_of_nat (bits_value (take (Suc n) (b # bs)))"
    by (simp add: v1 len algebra_simps)
  from Suc.IH [OF ok1 n, of v1] show ?case
    unfolding step p ps1 val by simp
qed


lemma get_n_bits_loop_short:
  assumes "reader_ok st" "length (pending_bits st) < n"
  shows "fst (get_n_bits_loop n v st) = -1"
  using assms
proof (induction n arbitrary: v st)
  case 0
  then show ?case by simp
next
  case (Suc n)
  show ?case
  proof (cases "pending_bits st")
    case Nil
    with Suc.prems show ?thesis
      by (simp add: get_one_bit_empty)
  next
    case (Cons b bs)
    note g = get_one_bit_Cons [OF Suc.prems(1) Cons]
    have "fst (get_n_bits_loop n w (snd (get_one_bit st))) = -1" for w
      using Suc.prems(2) g(2) g(3) Cons by (intro Suc.IH) simp_all
    then show ?thesis
      by (simp add: case_prod_unfold)
  qed
qed

lemma get_n_bits_enough:
  assumes "reader_ok st" "n \<le> length (pending_bits st)" "n \<le> 16"
  shows "fst (get_n_bits n st) = int (bits_value (take n (pending_bits st)))"
    and "pending_bits (snd (get_n_bits n st)) = drop n (pending_bits st)"
    and "reader_ok (snd (get_n_bits n st))"
proof -
  have len: "length (take n (pending_bits st)) = n"
    using assms(2) by simp
  have "bits_value (take n (pending_bits st)) < 2 ^ n"
    using bits_value_bound [of "take n (pending_bits st)"] by (simp only: len)
  also have "(2::nat) ^ n \<le> 2 ^ 16"
    using assms(3) by (intro power_increasing) simp_all
  finally have small: "bits_value (take n (pending_bits st)) < 2 ^ 16" .
  have u: "uint (word_of_nat (bits_value (take n (pending_bits st))) :: 16 word) =
           int (bits_value (take n (pending_bits st)))"
    using small by (simp add: uint_nat unat_of_nat)
  note l = get_n_bits_loop_enough [OF assms(1,2), of 0]
  show "fst (get_n_bits n st) = int (bits_value (take n (pending_bits st)))"
    using l u assms(3) by (cases "n = 0") (simp_all add: get_n_bits_def)
  show "pending_bits (snd (get_n_bits n st)) = drop n (pending_bits st)"
    using l assms(3) by (cases "n = 0") (simp_all add: get_n_bits_def)
  show "reader_ok (snd (get_n_bits n st))"
    using l assms(1,3) by (cases "n = 0") (simp_all add: get_n_bits_def)
qed

lemma get_n_bits_short:
  assumes "reader_ok st" "length (pending_bits st) < n"
  shows "fst (get_n_bits n st) = -1"
  using get_n_bits_loop_short [OF assms] assms(2) by (simp add: get_n_bits_def)


section \<open>The command decoder against the specification\<close>

lemma only_reads_table:
  "only_reads st st' \<Longrightarrow> exod_decrunch_table_data st' = exod_decrunch_table_data st"
  by (simp add: only_reads_def)

lemma table_entry_pending:
  assumes "reader_ok st" "n \<le> 16"
  shows "fst (table_entry base n st) =
           (if length (pending_bits st) < n then COMMAND_EOS_MARKER
            else exod_decrunch_table_data st ! (base + bits_value (take n (pending_bits st))))"
proof (cases "length (pending_bits st) < n")
  case True
  then show ?thesis
    using get_n_bits_short [OF assms(1) True]
    by (simp add: table_entry_def case_prod_unfold)
next
  case False
  then have n: "n \<le> length (pending_bits st)" by simp
  have "fst (get_n_bits n st) \<noteq> -1"
    using get_n_bits_enough(1) [OF assms(1) n assms(2)] by simp
  then show ?thesis
    using False get_n_bits_enough(1) [OF assms(1) n assms(2)]
      only_reads_table [OF get_n_bits_reads [of st n]]
    by (simp add: table_entry_def case_prod_unfold)
qed

text \<open>
  Claim C5. Command selection follows the fixed prefix tree: with the reader's pending
  bits as input, \<open>get_coded_command_val\<close> returns the table entry at the index the
  specification's tree selects (108 + i after 0 and five bits, 36 + i after 10 and four
  bits, 72 + i after 110 and three bits, 0 + i after 1110 and two bits, 144 after 1111),
  and the end-of-stream marker exactly when a bit or a multi-bit read on the path fails.
\<close>

theorem command_selection_follows_prefix_tree:
  assumes ok: "reader_ok st"
  shows "fst (get_coded_command_val st) =
           (case spec_command_index (pending_bits st) of
              None \<Rightarrow> COMMAND_EOS_MARKER
            | Some i \<Rightarrow> exod_decrunch_table_data st ! i)"
proof (cases "pending_bits st")
  case Nil
  then show ?thesis
    using get_one_bit_empty [OF ok Nil]
    by (simp add: get_coded_command_val_def)
next
  case (Cons b1 r1)
  define s1 where "s1 = snd (get_one_bit st)"
  note g1 = get_one_bit_Cons [OF ok Cons, folded s1_def]
  have t1: "exod_decrunch_table_data s1 = exod_decrunch_table_data st"
    unfolding s1_def by (rule only_reads_table [OF get_one_bit_reads])
  show ?thesis
  proof (cases b1)
    case False
    then show ?thesis
      using g1 t1 table_entry_pending [OF g1(3), of 5 108]
      by (simp add: get_coded_command_val_def case_prod_unfold Cons s1_def [symmetric])
  next
    case b1: True
    show ?thesis
    proof (cases r1)
      case Nil
      then show ?thesis
        using g1 b1 get_one_bit_empty [OF g1(3)]
        by (simp add: get_coded_command_val_def case_prod_unfold Cons s1_def [symmetric])
    next
      case r1: (Cons b2 r2)
      define s2 where "s2 = snd (get_one_bit s1)"
      have p1: "pending_bits s1 = b2 # r2"
        using g1(2) r1 by simp
      note g2 = get_one_bit_Cons [OF g1(3) p1, folded s2_def]
      have t2: "exod_decrunch_table_data s2 = exod_decrunch_table_data st"
        unfolding s2_def using only_reads_table [OF get_one_bit_reads [of s1]] t1 by simp
      show ?thesis
      proof (cases b2)
        case False
        then show ?thesis
          using g1(1) g2 b1 t2 table_entry_pending [OF g2(3), of 4 36]
          by (simp add: get_coded_command_val_def case_prod_unfold Cons r1
              s1_def [symmetric] s2_def [symmetric])
      next
        case b2: True
        show ?thesis
        proof (cases r2)
          case Nil
          then show ?thesis
            using g1(1) g2 b1 b2 get_one_bit_empty [OF g2(3)]
            by (simp add: get_coded_command_val_def case_prod_unfold Cons r1
                s1_def [symmetric] s2_def [symmetric])
        next
          case r2: (Cons b3 r3)
          define s3 where "s3 = snd (get_one_bit s2)"
          have p2: "pending_bits s2 = b3 # r3"
            using g2(2) r2 by simp
          note g3 = get_one_bit_Cons [OF g2(3) p2, folded s3_def]
          have t3: "exod_decrunch_table_data s3 = exod_decrunch_table_data st"
            unfolding s3_def using only_reads_table [OF get_one_bit_reads [of s2]] t2 by simp
          show ?thesis
          proof (cases b3)
            case False
            then show ?thesis
              using g1(1) g2(1) g3 b1 b2 t3 table_entry_pending [OF g3(3), of 3 72]
              by (simp add: get_coded_command_val_def case_prod_unfold Cons r1 r2
                  s1_def [symmetric] s2_def [symmetric] s3_def [symmetric])
          next
            case b3: True
            show ?thesis
            proof (cases r3)
              case Nil
              then show ?thesis
                using g1(1) g2(1) g3 b1 b2 b3 get_one_bit_empty [OF g3(3)]
                by (simp add: get_coded_command_val_def case_prod_unfold Cons r1 r2
                    s1_def [symmetric] s2_def [symmetric] s3_def [symmetric])
            next
              case r3: (Cons b4 r4)
              define s4 where "s4 = snd (get_one_bit s3)"
              have p3: "pending_bits s3 = b4 # r4"
                using g3(2) r3 by simp
              note g4 = get_one_bit_Cons [OF g3(3) p3, folded s4_def]
              have t4: "exod_decrunch_table_data s4 = exod_decrunch_table_data st"
                unfolding s4_def using only_reads_table [OF get_one_bit_reads [of s3]] t3
                by simp
              show ?thesis
                using g1(1) g2(1) g3(1) g4 b1 b2 b3 t4 table_entry_pending [OF g4(3), of 2 0]
                by (cases b4)
                  (simp_all add: get_coded_command_val_def case_prod_unfold Cons r1 r2 r3
                    s1_def [symmetric] s2_def [symmetric] s3_def [symmetric]
                    s4_def [symmetric])
            qed
          qed
        qed
      qed
    qed
  qed
qed


lemma leading_zeros_replicate: "leading_zeros (replicate n False @ True # bs) = n"
  by (induction n) simp_all

lemma after_zeros_replicate: "after_zeros (replicate n False @ True # bs) = True # bs"
  by (induction n) simp_all



lemma bits_value_replicate: "bits_value (replicate n False @ bs) = bits_value bs"
  by (induction n) simp_all

theorem command_selection_witness:
  "reader_ok (reader_at demo_crunched_data) \<and>
   spec_command_index (pending_bits (reader_at demo_crunched_data)) = Some 112 \<and>
   fst (get_coded_command_val (reader_at demo_crunched_data)) =
     exod_decrunch_table_data (reader_at demo_crunched_data) ! 112"
proof -
  have ok: "reader_ok (reader_at demo_crunched_data)"
    by code_simp
  have i: "spec_command_index (pending_bits (reader_at demo_crunched_data)) = Some 112"
    by code_simp
  show ?thesis
    using ok i command_selection_follows_prefix_tree [OF ok] by simp
qed

section \<open>The gamma decoder against the specification\<close>

lemma count_unary_pending:
  assumes "reader_ok st" "k \<le> 16"
  shows "fst (count_unary k st) =
           (if after_zeros (pending_bits st) = [] \<or> 16 < k + leading_zeros (pending_bits st)
            then None else Some (k + leading_zeros (pending_bits st)))
         \<and> (fst (count_unary k st) \<noteq> None \<longrightarrow>
              pending_bits (snd (count_unary k st)) = tl (after_zeros (pending_bits st)) \<and>
              reader_ok (snd (count_unary k st)))"
  using assms
proof (induction bs \<equiv> "pending_bits st" arbitrary: st k)
  case Nil
  then have "get_one_bit st = (-1, st)"
    by (simp add: get_one_bit_empty)
  with Nil(1) [symmetric] show ?case
    by (subst (1 2 3 4) count_unary.simps) simp
next
  case (Cons b bs)
  note p = Cons.hyps(2) [symmetric]
  note g = get_one_bit_Cons [OF Cons.prems(1) p]
  show ?case
  proof (cases b)
    case True
    with g Cons.prems(2) show ?thesis
      by (subst (1 2 3 4) count_unary.simps) (simp add: p Let_def)
  next
    case False
    show ?thesis
    proof (cases "k = 16")
      case True
      with g False show ?thesis
        by (subst (1 2 3 4) count_unary.simps) (simp add: p Let_def)
    next
      case k: False
      with Cons.prems(2) have k1: "k + 1 \<le> 16" by simp
      have step: "count_unary k st = count_unary (k + 1) (snd (get_one_bit st))"
        using g(1) False k1 by (subst count_unary.simps) (simp add: Let_def)
      have lz: "k + leading_zeros (b # bs) = k + 1 + leading_zeros bs"
        and az: "after_zeros (b # bs) = after_zeros bs"
        using False by simp_all
      from Cons.hyps(1) [OF g(2) [symmetric] g(3) k1] show ?thesis
        unfolding step p lz az g(2) .
    qed
  qed
qed

lemma count_unary_0_pending:
  assumes "reader_ok st"
  shows "fst (count_unary 0 st) =
           (if after_zeros (pending_bits st) = [] \<or> 16 < leading_zeros (pending_bits st)
            then None else Some (leading_zeros (pending_bits st)))"
    and "fst (count_unary 0 st) \<noteq> None \<Longrightarrow>
           pending_bits (snd (count_unary 0 st)) = tl (after_zeros (pending_bits st))"
    and "fst (count_unary 0 st) \<noteq> None \<Longrightarrow> reader_ok (snd (count_unary 0 st))"
  using count_unary_pending [OF assms, of 0] by simp_all

lemma push_bit_or_small:
  fixes r :: int
  assumes "0 \<le> r" "r < 2 ^ k"
  shows "push_bit k 1 OR r = 2 ^ k + r"
proof -
  have r: "take_bit k r = r"
    using assms by (simp add: take_bit_int_eq_self)
  have "(2 ^ k :: int) + take_bit k r = 2 ^ k OR take_bit k r"
    by (rule disjunctive_add) (auto simp add: bit_simps)
  then show ?thesis
    by (simp add: r push_bit_eq_mult)
qed

lemma push_bit_or_small_nat:
  fixes r :: nat
  assumes "r < 2 ^ k"
  shows "push_bit k 1 OR r = 2 ^ k + r"
proof -
  have r: "take_bit k r = r"
    using assms by (simp add: take_bit_nat_eq_self)
  have "(2 ^ k :: nat) + take_bit k r = 2 ^ k OR take_bit k r"
    by (rule disjunctive_add) (auto simp add: bit_simps)
  then show ?thesis
    by (simp add: r push_bit_eq_mult)
qed

lemma get_gamma_coded_value_pending:
  assumes ok: "reader_ok st"
    and k16: "leading_zeros (pending_bits st) \<noteq> 16"
  shows "(case spec_gamma (pending_bits st) of
            None \<Rightarrow> fst (get_gamma_coded_value st) = 0
          | Some v \<Rightarrow> unat (fst (get_gamma_coded_value st)) = v)"
proof -
  define k where "k = leading_zeros (pending_bits st)"
  define rest where "rest = after_zeros (pending_bits st)"
  define s1 where "s1 = snd (count_unary 0 st)"
  note cu = count_unary_0_pending [OF ok, folded k_def rest_def s1_def]
  show ?thesis
  proof (cases "rest = [] \<or> 16 < k")
    case True
    then have "fst (count_unary 0 st) = None"
      using cu by simp
    then have "fst (get_gamma_coded_value st) = 0"
      by (simp add: get_gamma_coded_value_def case_prod_unfold)
    moreover have "spec_gamma (pending_bits st) = None"
      using True by (auto simp add: spec_gamma_def Let_def k_def rest_def)
    ultimately show ?thesis by simp
  next
    case False
    with k16 have k15: "k \<le> 15" and ne: "rest \<noteq> []"
      by (simp_all add: k_def)
    from False cu have c: "fst (count_unary 0 st) = Some k"
      and p1: "pending_bits s1 = tl rest" and ok1: "reader_ok s1"
      by simp_all
    show ?thesis
    proof (cases "k = 0")
      case True
      then have "fst (get_gamma_coded_value st) = 1"
        using c by (simp add: get_gamma_coded_value_def case_prod_unfold)
      moreover have "spec_gamma (pending_bits st) = Some 1"
        using True ne by (simp add: spec_gamma_def Let_def k_def [symmetric] rest_def [symmetric])
      ultimately show ?thesis by simp
    next
      case k0: False
      show ?thesis
      proof (cases "length (tl rest) < k")
        case True
        have "fst (get_n_bits k s1) = -1"
          using get_n_bits_short [OF ok1, of k] True p1 by simp
        then have "fst (get_gamma_coded_value st) = 0"
          using c k0
          by (simp add: get_gamma_coded_value_def case_prod_unfold s1_def [symmetric] Let_def)
        moreover have "spec_gamma (pending_bits st) = None"
          using True ne k15
          by (simp add: spec_gamma_def Let_def k_def [symmetric] rest_def [symmetric])
        ultimately show ?thesis by simp
      next
        case False
        define r where "r = bits_value (take k (tl rest))"
        have len: "length (take k (tl rest)) = k"
          using False by simp
        have rk: "r < 2 ^ k"
          unfolding r_def using bits_value_bound [of "take k (tl rest)"] by (simp only: len)
        have "(2::nat) ^ k \<le> 2 ^ 15"
          using k15 by (intro power_increasing) simp_all
        with rk have r15: "r < 2 ^ 15" by simp
        have gn: "fst (get_n_bits k s1) = int r"
          using get_n_bits_enough(1) [OF ok1, of k] False p1 k15 by (simp add: r_def)
        have vp: "uint (word_of_nat r :: 16 word) = int r"
          using r15 by (simp add: uint_nat unat_of_nat)
        have vp_ne: "(word_of_nat r :: 16 word) \<noteq> 0xFFFF"
        proof
          assume "(word_of_nat r :: 16 word) = 0xFFFF"
          then have "uint (word_of_nat r :: 16 word) = uint (0xFFFF :: 16 word)"
            by simp
          with vp r15 show False by simp
        qed
        have sum: "push_bit k 1 OR int r = int (2 ^ k + r)"
          using push_bit_or_small [of "int r" k] rk by simp
        have "2 ^ k + r < 2 ^ 16"
          using rk \<open>(2::nat) ^ k \<le> 2 ^ 15\<close> by simp
        then have res: "unat (word_of_nat (2 ^ k + r) :: 16 word) = 2 ^ k + r"
          by (subst unat_of_nat) simp
        have "fst (get_gamma_coded_value st) =
                word_of_int (push_bit k 1 OR uint (word_of_nat r :: 16 word))"
          using c k0 gn vp_ne
          by (simp add: get_gamma_coded_value_def case_prod_unfold s1_def [symmetric] Let_def)
        also have "\<dots> = word_of_nat (2 ^ k + r)"
          unfolding vp sum by simp
        finally have code: "fst (get_gamma_coded_value st) = word_of_nat (2 ^ k + r)" .
        have "spec_gamma (pending_bits st) = Some (2 ^ k + r)"
          using False ne k15 push_bit_or_small_nat [OF rk]
          by (simp add: spec_gamma_def Let_def k_def [symmetric] rest_def [symmetric]
              r_def [symmetric])
        with code res show ?thesis by simp
      qed
    qed
  qed
qed


text \<open>
  The gamma decoder agrees with the specification's on every stream whose unary prefix
  is not exactly 16 zeros long (the lemma above). At 16 it does not:

  Claim C3. On \<open>overlong_gamma_stream\<close> the specification's decoder yields
  \<open>(1 << 16) | 1 = 65537\<close>, and \<open>get_gamma_coded_value\<close> returns 1: the prefix length 16
  passes the check \<open>unary_count > 16\<close>, and the \<open>uint16_t\<close> return type drops bit 16 of
  \<open>(1 << unary_count) | value_part\<close>. In a decode, \<open>overlong_length_stream\<close> with a
  16-byte buffer then copies 1 + 3 = 4 bytes and stops at the end of the stream with 5
  bytes output, where a length of 65537 + 3 would have filled the buffer.
\<close>

theorem gamma_sixteen_zeros_drops_leading_one:
  "leading_zeros (pending_bits (reader_at overlong_gamma_stream)) = 16 \<and>
   spec_gamma (pending_bits (reader_at overlong_gamma_stream)) = Some 65537 \<and>
   fst (get_gamma_coded_value (reader_at overlong_gamma_stream)) = 1 \<and>
   summary (exod_decrunch power_on_state overlong_length_stream 0 16) =
     Some (Break_EOS, 5, [0x41, 0x41, 0x41, 0x41, 0x41], 0)"
proof -
  have p: "pending_bits (reader_at overlong_gamma_stream) =
             replicate 16 False @ True # replicate 15 False @ True # replicate 7 False"
    by code_simp
  have s: "spec_gamma (pending_bits (reader_at overlong_gamma_stream)) = Some 65537"
    unfolding p spec_gamma_def leading_zeros_replicate after_zeros_replicate
    by (simp add: bits_value_replicate)
  have c: "fst (get_gamma_coded_value (reader_at overlong_gamma_stream)) = 1"
    by code_simp
  have d: "summary (exod_decrunch power_on_state overlong_length_stream 0 16) =
     Some (Break_EOS, 5, [0x41, 0x41, 0x41, 0x41, 0x41], 0)"
    by code_simp
  show ?thesis
    using s c d by (simp add: p leading_zeros_replicate)
qed









section \<open>The copy loop\<close>

lemma put_byte_fields [simp]:
  "decompressed_data_index (put_byte b st) = Suc (decompressed_data_index st)"
  "decompressed_data_ptr (put_byte b st) = decompressed_data_ptr st"
  "decompressed_buffer_size (put_byte b st) = decompressed_buffer_size st"
  "last_offset_val (put_byte b st) = last_offset_val st"
  "exod_decrunch_table_data (put_byte b st) = exod_decrunch_table_data st"
  "crunched_data (put_byte b st) = crunched_data st"
  "crunched_data_index (put_byte b st) = crunched_data_index st"
  "exod_zp_bitbuf (put_byte b st) = exod_zp_bitbuf st"
  "exod_zp_bit_count (put_byte b st) = exod_zp_bit_count st"
  by (simp_all add: put_byte_def)

lemma put_byte_mem:
  "mem (put_byte b st) a =
     (if a = decompressed_data_ptr st + decompressed_data_index st then b else mem st a)"
  by (simp add: put_byte_def)

lemma copy_run_fields [simp]:
  "decompressed_data_ptr (copy_run n d st) = decompressed_data_ptr st"
  "decompressed_buffer_size (copy_run n d st) = decompressed_buffer_size st"
  "last_offset_val (copy_run n d st) = last_offset_val st"
  "exod_decrunch_table_data (copy_run n d st) = exod_decrunch_table_data st"
  "crunched_data (copy_run n d st) = crunched_data st"
  "crunched_data_index (copy_run n d st) = crunched_data_index st"
  "exod_zp_bitbuf (copy_run n d st) = exod_zp_bitbuf st"
  "exod_zp_bit_count (copy_run n d st) = exod_zp_bit_count st"
  by (induction n arbitrary: st) simp_all

lemma copy_run_index:
  "decompressed_data_index (copy_run n d st) =
     decompressed_data_index st + min n (decompressed_buffer_size st - decompressed_data_index st)"
  by (induction n arbitrary: st) auto

lemma copy_run_below:
  "a < decompressed_data_ptr st + decompressed_data_index st \<Longrightarrow> mem (copy_run n d st) a = mem st a"
  by (induction n arbitrary: st) (simp_all add: put_byte_mem)

lemma copy_run_beyond:
  "decompressed_data_ptr st + decompressed_buffer_size st \<le> a \<Longrightarrow> mem (copy_run n d st) a = mem st a"
  by (induction n arbitrary: st) (simp_all add: put_byte_mem)

lemma copy_run_repeats:
  assumes "1 \<le> d" "d \<le> decompressed_data_index st"
    and "j < min n (decompressed_buffer_size st - decompressed_data_index st)"
  shows "mem (copy_run n d st) (decompressed_data_ptr st + decompressed_data_index st + j) =
         mem (copy_run n d st) (decompressed_data_ptr st + decompressed_data_index st + j - d)"
  using assms
proof (induction n arbitrary: st j)
  case 0
  then show ?case by simp
next
  case (Suc n)
  define p where "p = decompressed_data_ptr st"
  define i where "i = decompressed_data_index st"
  define s1 where "s1 = put_byte (mem st (p + i - d)) st"
  from Suc.prems(3) have room: "i < decompressed_buffer_size st"
    unfolding i_def by linarith
  then have step: "copy_run (Suc n) d st = copy_run n d s1"
    by (simp add: s1_def p_def i_def)
  have s1: "decompressed_data_ptr s1 = p" "decompressed_data_index s1 = Suc i"
    "decompressed_buffer_size s1 = decompressed_buffer_size st"
    by (simp_all add: s1_def p_def i_def)
  show ?case
  proof (cases j)
    case 0
    have "mem (copy_run n d s1) (p + i) = mem s1 (p + i)"
      by (rule copy_run_below) (simp add: s1)
    also have "\<dots> = mem st (p + i - d)"
      by (simp add: s1_def put_byte_mem p_def i_def)
    also have "\<dots> = mem s1 (p + i - d)"
      using Suc.prems(1) by (simp add: s1_def put_byte_mem p_def i_def)
    also have "\<dots> = mem (copy_run n d s1) (p + i - d)"
      using Suc.prems(1) by (intro copy_run_below [symmetric]) (simp add: s1)
    finally show ?thesis
      unfolding step 0 p_def [symmetric] i_def [symmetric] by simp
  next
    case (Suc j')
    have "mem (copy_run n d s1) (decompressed_data_ptr s1 + decompressed_data_index s1 + j') =
          mem (copy_run n d s1) (decompressed_data_ptr s1 + decompressed_data_index s1 + j' - d)"
      using Suc.prems Suc by (intro Suc.IH) (auto simp add: s1 i_def)
    then show ?thesis
      unfolding step Suc s1 p_def [symmetric] i_def [symmetric] by simp
  qed
qed

text \<open>
  Claim C6. A sequence with a distance between 1 and the write position is copied one byte
  at a time: the write position advances by the length (or up to the capacity), every
  new byte equals the byte \<open>offset\<close> positions before it in the result, also when that
  byte was written by the same instruction, and nothing below the old write position
  changes. On a buffer holding "A", length 5 and distance 1 give "AAAAAA".
\<close>

theorem copy_is_byte_at_a_time:
  assumes "offset \<noteq> 0" "unat offset \<le> decompressed_data_index st"
  shows "apply_sequence len offset st = (None, copy_run (unat len) (unat offset) st) \<and>
         decompressed_data_index (copy_run (unat len) (unat offset) st) =
           decompressed_data_index st +
           min (unat len) (decompressed_buffer_size st - decompressed_data_index st) \<and>
         (\<forall>j < min (unat len) (decompressed_buffer_size st - decompressed_data_index st).
            mem (copy_run (unat len) (unat offset) st)
              (decompressed_data_ptr st + decompressed_data_index st + j) =
            mem (copy_run (unat len) (unat offset) st)
              (decompressed_data_ptr st + decompressed_data_index st + j - unat offset)) \<and>
         (\<forall>a < decompressed_data_ptr st + decompressed_data_index st.
            mem (copy_run (unat len) (unat offset) st) a = mem st a) \<and>
         (let st' = snd (apply_sequence 5 1 one_A_state) in
            decompressed_data_index st' = 6 \<and>
            map (mem st') [0..<6] = [0x41, 0x41, 0x41, 0x41, 0x41, 0x41])"
proof -
  have d: "1 \<le> unat offset"
    using assms(1) by (simp add: unat_gt_0 Suc_le_eq)
  have a: "apply_sequence len offset st = (None, copy_run (unat len) (unat offset) st)"
    using assms by (simp add: apply_sequence_def)
  have ex: "(let st' = snd (apply_sequence 5 1 one_A_state) in
            decompressed_data_index st' = 6 \<and>
            map (mem st') [0..<6] = [0x41, 0x41, 0x41, 0x41, 0x41, 0x41])"
    by code_simp
  show ?thesis
    using a ex copy_run_index [of "unat len" "unat offset" st]
      copy_run_repeats [OF d assms(2)] copy_run_below [of _ st]
    by simp
qed


lemma pair_with_snd: "x = (a, snd x) \<longleftrightarrow> fst x = a"
  by (cases x) auto

theorem copy_is_byte_at_a_time_witness:
  "(1 :: 16 word) \<noteq> 0 \<and>
   unat (1 :: 16 word) \<le> decompressed_data_index one_A_state \<and>
   apply_sequence 5 1 one_A_state = (None, copy_run 5 1 one_A_state) \<and>
   decompressed_data_index (copy_run 5 1 one_A_state) = 6 \<and>
   map (mem (copy_run 5 1 one_A_state)) [1, 2, 3, 4, 5] =
   map (mem (copy_run 5 1 one_A_state)) [0, 1, 2, 3, 4]"
proof -
  have f: "decompressed_data_index one_A_state = 1" "decompressed_data_ptr one_A_state = 0"
    "decompressed_buffer_size one_A_state = 16"
    by code_simp+
  note t = copy_is_byte_at_a_time [of 1 one_A_state 5, unfolded f, simplified]
  from t have r: "\<forall>j<5. mem (copy_run 5 (Suc 0) one_A_state) (Suc j) =
                       mem (copy_run 5 (Suc 0) one_A_state) j"
    by simp
  show ?thesis
    using t r [rule_format, of 0] r [rule_format, of 1] r [rule_format, of 2]
      r [rule_format, of 3] r [rule_format, of 4]
    by (simp add: f numeral_2_eq_2 numeral_3_eq_3 eval_nat_numeral)
qed


section \<open>Sequences: the offset check and the reuse of the last offset\<close>

lemma keeps_output_refl [simp]: "keeps_output st st"
  by (simp add: keeps_output_def)

lemma keeps_output_trans: "keeps_output a b \<Longrightarrow> keeps_output b c \<Longrightarrow> keeps_output a c"
  by (simp add: keeps_output_def)

lemma only_reads_keeps: "only_reads st st' \<Longrightarrow> keeps_output st st'"
  by (simp add: only_reads_def keeps_output_def)

lemma only_reads_offset: "only_reads st st' \<Longrightarrow> last_offset_val st' = last_offset_val st"
  by (simp add: only_reads_def)

lemma short_sequence_keeps: "keeps_output st (snd (short_sequence len v st))"
  using only_reads_keeps [OF get_n_bits_reads [of st "unat v"]]
  by (simp add: short_sequence_def case_prod_unfold)

lemma gamma_sequence_keeps: "keeps_output st (snd (gamma_sequence st))"
proof -
  define s1 where "s1 = snd (get_gamma_coded_value st)"
  define s2 where "s2 = snd (get_one_bit s1)"
  define s3 where "s3 = snd (get_gamma_coded_value s2)"
  have r1: "only_reads st s1"
    unfolding s1_def by (rule get_gamma_coded_value_reads)
  have r2: "only_reads st s2"
    unfolding s2_def by (rule only_reads_trans [OF r1 get_one_bit_reads])
  have r3: "only_reads st s3"
    unfolding s3_def by (rule only_reads_trans [OF r2 get_gamma_coded_value_reads])
  have k: "keeps_output st s1" "keeps_output st s2" "keeps_output st s3"
    using r1 r2 r3 by (simp_all add: only_reads_keeps)
  have k4: "keeps_output st (s3\<lparr>last_offset_val := w\<rparr>)" for w
    using k(3) by (simp add: keeps_output_def)
  show ?thesis
    unfolding gamma_sequence_def case_prod_unfold
    by (simp add: s1_def [symmetric] s2_def [symmetric] s3_def [symmetric] k k4)
qed

lemma sequence_params_keeps: "keeps_output st (snd (sequence_params t v st))"
  by (simp add: sequence_params_def short_sequence_keeps gamma_sequence_keeps)

lemma decrunch_body_sequence:
  assumes "fst (get_coded_command_val st) \<noteq> COMMAND_EOS_MARKER"
    and "fst (get_coded_command_val st) AND 3 \<noteq> 0"
  shows "decrunch_body st =
           (case sequence_params (fst (get_coded_command_val st) AND 3)
                   (drop_bit 2 (fst (get_coded_command_val st)))
                   (snd (get_coded_command_val st)) of
              (Inl e, s2) \<Rightarrow> (Some e, s2)
            | (Inr (len, offset), s2) \<Rightarrow> apply_sequence len offset s2)"
  using assms by (simp add: decrunch_body_def case_prod_unfold Let_def)

text \<open>
  Claim C7. When the next command of the stream is a sequence whose offset is 0 or
  greater than the number of bytes output so far, the loop ends at the "Invalid offset"
  \<open>return\<close>, and the memory and the write position are those before the instruction:
  no byte of it is written.
\<close>

theorem invalid_offset_stops_decode:
  assumes "decompressed_data_index st < decompressed_buffer_size st"
    and "fst (get_coded_command_val st) \<noteq> COMMAND_EOS_MARKER"
    and "fst (get_coded_command_val st) AND 3 \<noteq> 0"
    and "sequence_params (fst (get_coded_command_val st) AND 3)
           (drop_bit 2 (fst (get_coded_command_val st)))
           (snd (get_coded_command_val st)) = (Inr (len, offset), s2)"
    and "offset = 0 \<or> decompressed_data_index st < unat offset"
  shows "decrunch_loop st = Some (Return_invalid_offset, s2) \<and>
         mem s2 = mem st \<and>
         decompressed_data_index s2 = decompressed_data_index st"
proof -
  have k: "keeps_output st s2"
    using keeps_output_trans [OF only_reads_keeps [OF get_coded_command_val_reads [of st]]
        sequence_params_keeps [of "snd (get_coded_command_val st)"
          "fst (get_coded_command_val st) AND 3" "drop_bit 2 (fst (get_coded_command_val st))"]]
    by (simp add: assms(4))
  then have i: "decompressed_data_index s2 = decompressed_data_index st" and m: "mem s2 = mem st"
    by (simp_all add: keeps_output_def)
  have "decrunch_body st = apply_sequence len offset s2"
    by (simp add: decrunch_body_sequence [OF assms(2,3)] assms(4))
  also have "\<dots> = (Some Return_invalid_offset, s2)"
    using assms(5) by (auto simp add: apply_sequence_def i)
  finally have "decrunch_body st = (Some Return_invalid_offset, s2)" .
  then have "decrunch_loop st = Some (Return_invalid_offset, s2)"
    using assms(1) by (subst decrunch_loop.simps) simp
  with i m show ?thesis by simp
qed


theorem invalid_offset_stops_decode_witness:
  "decompressed_data_index (reader_at [0xFA]) < decompressed_buffer_size (reader_at [0xFA]) \<and>
   fst (get_coded_command_val (reader_at [0xFA])) = 3 \<and>
   fst (sequence_params 3 0 (snd (get_coded_command_val (reader_at [0xFA])))) = Inr (4, 1) \<and>
   decompressed_data_index (reader_at [0xFA]) < unat (1 :: 16 word) \<and>
   map_option fst (decrunch_loop (reader_at [0xFA])) = Some Return_invalid_offset"
proof -
  define st where "st = reader_at [0xFA]"
  define s2 where "s2 = snd (sequence_params 3 0 (snd (get_coded_command_val st)))"
  have i: "decompressed_data_index st < decompressed_buffer_size st"
    unfolding st_def by code_simp
  have c: "fst (get_coded_command_val st) = 3"
    unfolding st_def by code_simp
  have p: "fst (sequence_params 3 0 (snd (get_coded_command_val st))) = Inr (4, 1)"
    unfolding st_def by code_simp
  have d: "decompressed_data_index st < unat (1 :: 16 word)"
    unfolding st_def by code_simp
  have "decrunch_loop st = Some (Return_invalid_offset, s2)"
    using invalid_offset_stops_decode [of st 4 1 s2] i d
    by (simp add: c COMMAND_EOS_MARKER_def s2_def pair_with_snd p)
  then show ?thesis
    using i c p d by (simp add: st_def)
qed

lemma gamma_sequence_reuse:
  assumes "gamma_sequence s = (Inr (len, offset), s')" "reuse_bit_at s = 1"
  shows "offset = last_offset_val s" "last_offset_val s' = last_offset_val s"
proof -
  define s1 where "s1 = snd (get_gamma_coded_value s)"
  define s2 where "s2 = snd (get_one_bit s1)"
  have l: "last_offset_val s2 = last_offset_val s"
    using only_reads_offset [OF get_gamma_coded_value_reads [of s]]
      only_reads_offset [OF get_one_bit_reads [of s1]]
    by (simp add: s1_def s2_def)
  have b: "fst (get_one_bit s1) = 1"
    using assms(2) by (simp add: reuse_bit_at_def s1_def)
  from assms(1) have "offset = last_offset_val s2 \<and> s' = s2"
    by (auto simp add: gamma_sequence_def case_prod_unfold s1_def [symmetric] s2_def [symmetric] b
        split: if_splits)
  with l show "offset = last_offset_val s" "last_offset_val s' = last_offset_val s"
    by simp_all
qed

lemma gamma_sequence_new_offset:
  assumes "gamma_sequence s = (Inr (len, offset), s')" "reuse_bit_at s = 0"
  shows "last_offset_val s' = offset"
proof -
  define s1 where "s1 = snd (get_gamma_coded_value s)"
  have b: "fst (get_one_bit s1) = 0"
    using assms(2) by (simp add: reuse_bit_at_def s1_def)
  from assms(1) show ?thesis
    by (auto simp add: gamma_sequence_def case_prod_unfold s1_def [symmetric] b
        split: if_splits)
qed

lemma sequence_params_gamma:
  "t AND 3 = 3 \<Longrightarrow> sequence_params (t AND 3) v s = gamma_sequence s"
  by (simp add: sequence_params_def)

lemma apply_sequence_offset:
  "last_offset_val (snd (apply_sequence len offset st)) = last_offset_val st"
  by (simp add: apply_sequence_def)

text \<open>
  Claim C2, as the code has it. If an iteration decodes a gamma sequence with reuse bit 0
  and distance \<open>d\<close> and the loop goes on, and the next iteration decodes a gamma sequence
  with reuse bit 1, then that one copies with the same distance \<open>d\<close>. A gamma sequence
  with reuse bit 1 while \<open>last_offset_val\<close> is still 0 gets the offset 0 and is stopped
  by the general offset check, at the "Invalid offset" \<open>return\<close>.
\<close>

theorem reuse_bit_takes_last_distance:
  "(gamma_copy_next st0 \<and>
    gamma_sequence (snd (get_coded_command_val st0)) = (Inr (len1, d), sa) \<and>
    reuse_bit_at (snd (get_coded_command_val st0)) = 0 \<and>
    decrunch_body st0 = (None, st1) \<and>
    gamma_copy_next st1 \<and>
    gamma_sequence (snd (get_coded_command_val st1)) = (Inr (len2, d2), sb) \<and>
    reuse_bit_at (snd (get_coded_command_val st1)) = 1
    \<longrightarrow> d2 = d \<and> decrunch_body st1 = apply_sequence len2 d sb) \<and>
   (gamma_copy_next st \<and>
    gamma_sequence (snd (get_coded_command_val st)) = (Inr (len, offset), s') \<and>
    reuse_bit_at (snd (get_coded_command_val st)) = 1 \<and>
    last_offset_val st = 0
    \<longrightarrow> decrunch_body st = (Some Return_invalid_offset, s'))"
proof (intro conjI impI)
  assume a: "gamma_copy_next st0 \<and>
    gamma_sequence (snd (get_coded_command_val st0)) = (Inr (len1, d), sa) \<and>
    reuse_bit_at (snd (get_coded_command_val st0)) = 0 \<and>
    decrunch_body st0 = (None, st1) \<and>
    gamma_copy_next st1 \<and>
    gamma_sequence (snd (get_coded_command_val st1)) = (Inr (len2, d2), sb) \<and>
    reuse_bit_at (snd (get_coded_command_val st1)) = 1"
  then have c0: "fst (get_coded_command_val st0) \<noteq> COMMAND_EOS_MARKER"
    "fst (get_coded_command_val st0) AND 3 = 3"
    and c1: "fst (get_coded_command_val st1) \<noteq> COMMAND_EOS_MARKER"
    "fst (get_coded_command_val st1) AND 3 = 3"
    by (simp_all add: gamma_copy_next_def)
  from c0(2) have n0: "fst (get_coded_command_val st0) AND 3 \<noteq> 0" by simp
  from c1(2) have n1: "fst (get_coded_command_val st1) AND 3 \<noteq> 0" by simp
  have b0: "decrunch_body st0 = apply_sequence len1 d sa"
    using a by (simp add: decrunch_body_sequence [OF c0(1) n0] sequence_params_gamma [OF c0(2)])
  have b1: "decrunch_body st1 = apply_sequence len2 d2 sb"
    using a by (simp add: decrunch_body_sequence [OF c1(1) n1] sequence_params_gamma [OF c1(2)])
  have "last_offset_val sa = d"
    using a gamma_sequence_new_offset by blast
  moreover have "st1 = snd (apply_sequence len1 d sa)"
    using a b0 by simp
  ultimately have l1: "last_offset_val st1 = d"
    by (simp add: apply_sequence_offset)
  have "d2 = last_offset_val (snd (get_coded_command_val st1))"
    using a gamma_sequence_reuse(1) by blast
  also have "\<dots> = last_offset_val st1"
    by (rule only_reads_offset [OF get_coded_command_val_reads])
  finally have d2: "d2 = d"
    using l1 by simp
  show "d2 = d" by (rule d2)
  show "decrunch_body st1 = apply_sequence len2 d sb"
    using b1 d2 by simp
next
  assume a: "gamma_copy_next st \<and>
    gamma_sequence (snd (get_coded_command_val st)) = (Inr (len, offset), s') \<and>
    reuse_bit_at (snd (get_coded_command_val st)) = 1 \<and>
    last_offset_val st = 0"
  then have c: "fst (get_coded_command_val st) \<noteq> COMMAND_EOS_MARKER"
    "fst (get_coded_command_val st) AND 3 = 3"
    by (simp_all add: gamma_copy_next_def)
  from c(2) have n: "fst (get_coded_command_val st) AND 3 \<noteq> 0" by simp
  have b: "decrunch_body st = apply_sequence len offset s'"
    using a by (simp add: decrunch_body_sequence [OF c(1) n] sequence_params_gamma [OF c(2)])
  have "offset = last_offset_val (snd (get_coded_command_val st))"
    using a gamma_sequence_reuse(1) by blast
  also have "\<dots> = last_offset_val st"
    by (rule only_reads_offset [OF get_coded_command_val_reads])
  finally have "offset = 0"
    using a by simp
  then show "decrunch_body st = (Some Return_invalid_offset, s')"
    by (simp add: b apply_sequence_def)
qed


theorem reuse_bit_takes_last_distance_witness:
  "(let st0 = snd (decrunch_body (reader_at two_gamma_copies));
        st1 = snd (decrunch_body st0)
    in gamma_copy_next st0 \<and>
       fst (gamma_sequence (snd (get_coded_command_val st0))) = Inr (4, 1) \<and>
       reuse_bit_at (snd (get_coded_command_val st0)) = 0 \<and>
       fst (decrunch_body st0) = None \<and>
       gamma_copy_next st1 \<and>
       fst (gamma_sequence (snd (get_coded_command_val st1))) = Inr (4, 1) \<and>
       reuse_bit_at (snd (get_coded_command_val st1)) = 1 \<and>
       decrunch_body st1 =
         apply_sequence 4 1 (snd (gamma_sequence (snd (get_coded_command_val st1))))) \<and>
   (gamma_copy_next (reader_at [0xFC]) \<and>
    fst (gamma_sequence (snd (get_coded_command_val (reader_at [0xFC])))) = Inr (4, 0) \<and>
    reuse_bit_at (snd (get_coded_command_val (reader_at [0xFC]))) = 1 \<and>
    last_offset_val (reader_at [0xFC]) = 0 \<and>
    fst (decrunch_body (reader_at [0xFC])) = Some Return_invalid_offset)"
proof -
  define st0 where "st0 = snd (decrunch_body (reader_at two_gamma_copies))"
  define st1 where "st1 = snd (decrunch_body st0)"
  define sa where "sa = snd (gamma_sequence (snd (get_coded_command_val st0)))"
  define sb where "sb = snd (gamma_sequence (snd (get_coded_command_val st1)))"
  define st where "st = reader_at [0xFC]"
  define s' where "s' = snd (gamma_sequence (snd (get_coded_command_val st)))"
  have h0: "gamma_copy_next st0"
    "fst (gamma_sequence (snd (get_coded_command_val st0))) = Inr (4, 1)"
    "reuse_bit_at (snd (get_coded_command_val st0)) = 0"
    "fst (decrunch_body st0) = None"
    unfolding st0_def by code_simp+
  have h1: "gamma_copy_next st1"
    "fst (gamma_sequence (snd (get_coded_command_val st1))) = Inr (4, 1)"
    "reuse_bit_at (snd (get_coded_command_val st1)) = 1"
    unfolding st1_def st0_def by code_simp+
  have h: "gamma_copy_next st"
    "fst (gamma_sequence (snd (get_coded_command_val st))) = Inr (4, 0)"
    "reuse_bit_at (snd (get_coded_command_val st)) = 1"
    "last_offset_val st = 0"
    unfolding st_def by code_simp+
  have "decrunch_body st1 = apply_sequence 4 1 sb"
    using reuse_bit_takes_last_distance [of st0 4 1 sa st1 4 1 sb] h0 h1
    by (simp add: sa_def sb_def st1_def pair_with_snd)
  moreover have "decrunch_body st = (Some Return_invalid_offset, s')"
    using reuse_bit_takes_last_distance [of _ _ _ _ _ _ _ _ st 4 0 s'] h
    by (simp add: s'_def pair_with_snd)
  ultimately show ?thesis
    using h0 h1 h
    by (simp add: Let_def st0_def [symmetric] st1_def [symmetric] sb_def [symmetric]
        st_def [symmetric])
qed

text \<open>
  Claim C2 as stated fails: there is no error kind of its own for a reuse bit without a
  recorded distance. The stream \<open>0xFC\<close> (1111, length code 1, reuse bit 1) and the stream
  \<open>0xFA\<close> (1111, length code 1, reuse bit 0, distance 1 with nothing output yet) end at
  the same exit with the same output.
\<close>

theorem reuse_without_distance_is_invalid_offset:
  "observed 0 16 (exod_decrunch power_on_state [0xFC] 0 16) =
     Some (Return_invalid_offset, 0, replicate 16 0) \<and>
   observed 0 16 (exod_decrunch power_on_state [0xFA] 0 16) =
     Some (Return_invalid_offset, 0, replicate 16 0)"
  by code_simp


section \<open>Writes stay inside the buffer\<close>

lemma writes_forward_refl [simp]: "writes_forward st st"
  by (simp add: writes_forward_def)

lemma writes_forward_trans:
  assumes "writes_forward a b" "writes_forward b c"
  shows "writes_forward a c"
proof -
  have "mem c x = mem a x"
    if "x < decompressed_data_ptr a + decompressed_data_index a \<or>
        decompressed_data_ptr a + decompressed_data_index c \<le> x" for x
  proof -
    from that assms have "mem c x = mem b x"
      by (auto simp add: writes_forward_def)
    moreover from that assms have "mem b x = mem a x"
      by (auto simp add: writes_forward_def)
    ultimately show ?thesis by simp
  qed
  with assms show ?thesis
    by (simp add: writes_forward_def)
qed

lemma keeps_output_forward: "keeps_output st st' \<Longrightarrow> writes_forward st st'"
  by (simp add: keeps_output_def writes_forward_def)

lemma only_reads_forward: "only_reads st st' \<Longrightarrow> writes_forward st st'"
  by (simp add: only_reads_keeps keeps_output_forward)

lemma put_byte_forward:
  "decompressed_data_index st < decompressed_buffer_size st \<Longrightarrow> writes_forward st (put_byte b st)"
  by (simp add: writes_forward_def put_byte_mem)

lemma literal_run_forward: "writes_forward st (snd (literal_run n st))"
proof (induction n arbitrary: st)
  case 0
  then show ?case by simp
next
  case (Suc n)
  show ?case
  proof (cases "decompressed_data_index st \<ge> decompressed_buffer_size st")
    case True
    then show ?thesis by simp
  next
    case False
    define s1 where "s1 = snd (get_n_bits 8 st)"
    have r: "writes_forward st s1"
      unfolding s1_def by (rule only_reads_forward [OF get_n_bits_reads])
    have room: "decompressed_data_index s1 < decompressed_buffer_size s1"
      using False only_reads_keeps [OF get_n_bits_reads [of st 8]]
      by (simp add: s1_def keeps_output_def)
    have "writes_forward st (snd (literal_run n (put_byte b s1)))" for b
      by (rule writes_forward_trans [OF writes_forward_trans [OF r put_byte_forward [OF room]]
            Suc.IH])
    then show ?thesis
      using False r by (simp add: case_prod_unfold s1_def [symmetric])
  qed
qed

lemma copy_run_forward: "writes_forward st (copy_run n d st)"
proof (induction n arbitrary: st)
  case 0
  then show ?case by simp
next
  case (Suc n)
  show ?case
  proof (cases "decompressed_data_index st \<ge> decompressed_buffer_size st")
    case True
    then show ?thesis by simp
  next
    case False
    then have room: "decompressed_data_index st < decompressed_buffer_size st" by simp
    have "writes_forward st (copy_run n d (put_byte b st))" for b
      by (rule writes_forward_trans [OF put_byte_forward [OF room] Suc.IH])
    then show ?thesis
      using False by simp
  qed
qed

lemma apply_sequence_forward: "writes_forward st (snd (apply_sequence len offset st))"
  by (simp add: apply_sequence_def copy_run_forward)

lemma decrunch_body_forward: "writes_forward st (snd (decrunch_body st))"
proof -
  define c where "c = fst (get_coded_command_val st)"
  define s1 where "s1 = snd (get_coded_command_val st)"
  define s2 where "s2 = snd (sequence_params (c AND 3) (drop_bit 2 c) s1)"
  have r1: "writes_forward st s1"
    unfolding s1_def by (rule only_reads_forward [OF get_coded_command_val_reads])
  have r2: "writes_forward st s2"
    unfolding s2_def
    by (rule writes_forward_trans [OF r1 keeps_output_forward [OF sequence_params_keeps]])
  have l: "writes_forward st (snd (literal_run n s1))" for n
    by (rule writes_forward_trans [OF r1 literal_run_forward])
  have a: "writes_forward st (snd (apply_sequence len offset s2))" for len offset
    by (rule writes_forward_trans [OF r2 apply_sequence_forward])
  show ?thesis
    unfolding decrunch_body_def case_prod_unfold Let_def
    by (simp add: c_def [symmetric] s1_def [symmetric] s2_def [symmetric] r1 r2 l a
        split: sum.split)
qed

lemma decrunch_loop_forward:
  "decrunch_loop st = Some (e, s) \<Longrightarrow> writes_forward st s"
proof (induction st rule: measure_induct_rule [where f = remaining_bits])
  case (less st)
  show ?case
  proof (cases "decompressed_data_index st < decompressed_buffer_size st")
    case False
    with less.prems show ?thesis
      by (subst (asm) decrunch_loop.simps) simp
  next
    case True
    show ?thesis
    proof (cases "fst (decrunch_body st)")
      case (Some e')
      with True less.prems have "s = snd (decrunch_body st)"
        by (subst (asm) decrunch_loop.simps) (auto simp add: case_prod_unfold)
      then show ?thesis
        by (simp add: decrunch_body_forward)
    next
      case None
      with True less.prems have "decrunch_loop (snd (decrunch_body st)) = Some (e, s)"
        by (subst (asm) decrunch_loop.simps) (simp add: case_prod_unfold)
      from less.IH [OF decrunch_body_consumes [OF None] this]
      show ?thesis
        by (rule writes_forward_trans [OF decrunch_body_forward])
    qed
  qed
qed

section \<open>Two runs on the same stream\<close>

lemma get_one_bit_rebase:
  "get_one_bit (rebase m p c st) = (fst (get_one_bit st), rebase m p c (snd (get_one_bit st)))"
  by (simp add: get_one_bit_def rebase_def Let_def)

lemma get_n_bits_loop_rebase:
  "get_n_bits_loop n v (rebase m p c st) =
     (fst (get_n_bits_loop n v st), rebase m p c (snd (get_n_bits_loop n v st)))"
  by (induction n arbitrary: v st) (simp_all add: get_one_bit_rebase case_prod_unfold)

lemma get_n_bits_rebase:
  "get_n_bits n (rebase m p c st) = (fst (get_n_bits n st), rebase m p c (snd (get_n_bits n st)))"
  by (simp add: get_n_bits_def get_n_bits_loop_rebase)

lemma count_unary_rebase:
  "count_unary k (rebase m p c st) = (fst (count_unary k st), rebase m p c (snd (count_unary k st)))"
proof (induction k st rule: count_unary.induct)
  case (1 k st)
  show ?case
  proof (cases "fst (get_one_bit st) \<noteq> -1 \<and> fst (get_one_bit st) \<noteq> 1 \<and> \<not> k + 1 > 16")
    case True
    then have "count_unary k st = count_unary (k + 1) (snd (get_one_bit st))"
      by (subst count_unary.simps) (simp add: Let_def)
    moreover from True
    have "count_unary k (rebase m p c st) = count_unary (k + 1) (rebase m p c (snd (get_one_bit st)))"
      by (subst count_unary.simps) (simp add: Let_def get_one_bit_rebase)
    ultimately show ?thesis
      using "1.IH" [OF refl] True by simp
  next
    case False
    then show ?thesis
      by (subst (1 2 3) count_unary.simps) (auto simp add: Let_def get_one_bit_rebase)
  qed
qed

lemma get_gamma_coded_value_rebase:
  "get_gamma_coded_value (rebase m p c st) =
     (fst (get_gamma_coded_value st), rebase m p c (snd (get_gamma_coded_value st)))"
  by (simp add: get_gamma_coded_value_def count_unary_rebase get_n_bits_rebase
      case_prod_unfold Let_def split: option.split)

lemma rebase_table [simp]:
  "exod_decrunch_table_data (rebase m p c st) = exod_decrunch_table_data st"
  "last_offset_val (rebase m p c st) = last_offset_val st"
  "decompressed_data_index (rebase m p c st) = decompressed_data_index st"
  "mem (rebase m p c st) = m"
  "decompressed_data_ptr (rebase m p c st) = p"
  "decompressed_buffer_size (rebase m p c st) = c"
  by (simp_all add: rebase_def)

lemma table_entry_rebase:
  "table_entry b n (rebase m p c st) = (fst (table_entry b n st), rebase m p c (snd (table_entry b n st)))"
  by (simp add: table_entry_def get_n_bits_rebase case_prod_unfold)

lemma get_coded_command_val_rebase:
  "get_coded_command_val (rebase m p c st) =
     (fst (get_coded_command_val st), rebase m p c (snd (get_coded_command_val st)))"
  by (simp add: get_coded_command_val_def get_one_bit_rebase table_entry_rebase case_prod_unfold)

lemma short_sequence_rebase:
  "short_sequence len v (rebase m p c st) =
     (fst (short_sequence len v st), rebase m p c (snd (short_sequence len v st)))"
  by (simp add: short_sequence_def get_n_bits_rebase case_prod_unfold)

lemma rebase_offset: "rebase m p c (st\<lparr>last_offset_val := w\<rparr>) = (rebase m p c st)\<lparr>last_offset_val := w\<rparr>"
  by (simp add: rebase_def)

lemma gamma_sequence_rebase:
  "gamma_sequence (rebase m p c st) =
     (fst (gamma_sequence st), rebase m p c (snd (gamma_sequence st)))"
  by (simp add: gamma_sequence_def get_gamma_coded_value_rebase get_one_bit_rebase
      case_prod_unfold rebase_offset)

lemma sequence_params_rebase:
  "sequence_params t v (rebase m p c st) =
     (fst (sequence_params t v st), rebase m p c (snd (sequence_params t v st)))"
  by (simp add: sequence_params_def short_sequence_rebase gamma_sequence_rebase)

lemma same_core_rebase:
  "same_core st1 st2 \<Longrightarrow>
     st2 = rebase (mem st2) (decompressed_data_ptr st2) (decompressed_buffer_size st2) st1"
  by (cases st1; cases st2) (simp add: same_core_def rebase_def)

lemma sim_reader:
  assumes comm: "\<And>m p c. f (rebase m p c st1) = (fst (f st1), rebase m p c (snd (f st1)))"
    and keep: "keeps_output st1 (snd (f st1))"
    and sim: "sim st1 st2"
  shows "fst (f st2) = fst (f st1)"
    and "sim (snd (f st1)) (snd (f st2))"
    and "decompressed_buffer_size (snd (f st2)) = decompressed_buffer_size st2"
    and "decompressed_data_ptr (snd (f st2)) = decompressed_data_ptr st2"
proof -
  define m where "m = mem st2"
  define p where "p = decompressed_data_ptr st2"
  define c where "c = decompressed_buffer_size st2"
  have st2: "st2 = rebase m p c st1"
    unfolding m_def p_def c_def using sim by (intro same_core_rebase) (simp add: sim_def)
  have f2: "f st2 = (fst (f st1), rebase m p c (snd (f st1)))"
    unfolding st2 by (rule comm)
  show "fst (f st2) = fst (f st1)"
    by (simp add: f2)
  show "decompressed_buffer_size (snd (f st2)) = decompressed_buffer_size st2"
    by (simp add: f2 c_def)
  show "decompressed_data_ptr (snd (f st2)) = decompressed_data_ptr st2"
    by (simp add: f2 p_def)
  have "same_core (snd (f st1)) (rebase m p c (snd (f st1)))"
    by (simp add: same_core_def rebase_def)
  moreover have "agree_upto (decompressed_data_index (snd (f st1))) (snd (f st1))
                   (rebase m p c (snd (f st1)))"
    using sim keep
    by (simp add: agree_upto_def sim_def keeps_output_def m_def p_def)
  ultimately show "sim (snd (f st1)) (snd (f st2))"
    by (simp add: f2 sim_def)
qed

lemmas sim_get_n_bits = sim_reader [where f = "get_n_bits n" for n, OF get_n_bits_rebase
    only_reads_keeps [OF get_n_bits_reads]]

lemmas sim_get_coded_command_val = sim_reader [where f = get_coded_command_val,
    OF get_coded_command_val_rebase only_reads_keeps [OF get_coded_command_val_reads]]

lemmas sim_sequence_params = sim_reader [where f = "sequence_params t v" for t v,
    OF sequence_params_rebase sequence_params_keeps]

lemma sim_index: "sim st1 st2 \<Longrightarrow> decompressed_data_index st2 = decompressed_data_index st1"
  by (simp add: sim_def same_core_def)

lemma sim_put_byte: "sim s1 s2 \<Longrightarrow> sim (put_byte b s1) (put_byte b s2)"
  by (auto simp add: sim_def same_core_def agree_upto_def put_byte_mem less_Suc_eq)

lemma sim_cut:
  assumes "sim st1 st2" "writes_forward st1 s1"
    and "decompressed_data_index st1 = decompressed_buffer_size st2"
    and "decompressed_buffer_size st2 < decompressed_buffer_size st1"
  shows "cut_short st1 st2 s1 st2"
  using assms
  by (auto simp add: cut_short_def sim_def same_core_def agree_upto_def writes_forward_def)

lemma writes_forward_size:
  "writes_forward st st' \<Longrightarrow> decompressed_buffer_size st' = decompressed_buffer_size st"
  by (simp add: writes_forward_def)

lemma literal_run_sim:
  assumes "sim st1 st2"
    and "decompressed_buffer_size st2 \<le> decompressed_buffer_size st1"
    and "decompressed_data_index st1 \<le> decompressed_buffer_size st2"
  shows "(fst (literal_run n st2) = fst (literal_run n st1) \<and>
          sim (snd (literal_run n st1)) (snd (literal_run n st2))) \<or>
         (fst (literal_run n st2) = None \<and>
          cut_short st1 st2 (snd (literal_run n st1)) (snd (literal_run n st2)))"
  using assms
proof (induction n arbitrary: st1 st2)
  case 0
  then show ?case by simp
next
  case (Suc n)
  note i = sim_index [OF Suc.prems(1)]
  show ?case
  proof (cases "decompressed_data_index st2 \<ge> decompressed_buffer_size st2")
    case True
    then have r2: "literal_run (Suc n) st2 = (None, st2)" by simp
    show ?thesis
    proof (cases "decompressed_data_index st1 \<ge> decompressed_buffer_size st1")
      case True
      then have r1: "literal_run (Suc n) st1 = (None, st1)" by simp
      show ?thesis
        unfolding r1 r2 using Suc.prems(1) by simp
    next
      case False
      have "cut_short st1 st2 (snd (literal_run (Suc n) st1)) st2"
        using Suc.prems True False i
        by (intro sim_cut literal_run_forward) simp_all
      then show ?thesis
        unfolding r2 by (simp del: literal_run.simps)
    qed
  next
    case False
    then have room2: "decompressed_data_index st2 < decompressed_buffer_size st2" by simp
    with Suc.prems(2) i have room1: "decompressed_data_index st1 < decompressed_buffer_size st1"
      by simp
    define a1 where "a1 = snd (get_n_bits 8 st1)"
    define a2 where "a2 = snd (get_n_bits 8 st2)"
    define b where "b = fst (get_n_bits 8 st1)"
    note g = sim_get_n_bits [OF Suc.prems(1), of 8, folded a1_def a2_def b_def]
    have size1: "decompressed_buffer_size a1 = decompressed_buffer_size st1"
      and idx1: "decompressed_data_index a1 = decompressed_data_index st1"
      using only_reads_keeps [OF get_n_bits_reads [of st1 8]]
      by (simp_all add: a1_def keeps_output_def)
    show ?thesis
    proof (cases "b = -1")
      case True
      then have r1: "literal_run (Suc n) st1 = (Some Return_literal_EOS, a1)"
        using room1 by (simp add: case_prod_unfold b_def a1_def)
      from True have r2: "literal_run (Suc n) st2 = (Some Return_literal_EOS, a2)"
        using room2 g(1) by (simp add: case_prod_unfold b_def a2_def)
      show ?thesis
        unfolding r1 r2 using g(2) by simp
    next
      case False
      define w :: "8 word" where "w = word_of_int b"
      have r1: "literal_run (Suc n) st1 = literal_run n (put_byte w a1)"
        using room1 False by (simp add: case_prod_unfold b_def a1_def w_def)
      have r2: "literal_run (Suc n) st2 = literal_run n (put_byte w a2)"
        using room2 False g(1) by (simp add: case_prod_unfold b_def a2_def w_def)
      have s: "sim (put_byte w a1) (put_byte w a2)"
        by (rule sim_put_byte [OF g(2)])
      have c: "decompressed_buffer_size (put_byte w a2) \<le> decompressed_buffer_size (put_byte w a1)"
        using Suc.prems(2) g(3) size1 by simp
      have d: "decompressed_data_index (put_byte w a1) \<le> decompressed_buffer_size (put_byte w a2)"
        using room2 g(3) idx1 i by simp
      from Suc.IH [OF s c d] show ?thesis
        unfolding r1 r2 using g(3) size1 by (simp add: cut_short_def)
    qed
  qed
qed

lemma copy_run_sim:
  assumes "sim st1 st2"
    and "decompressed_buffer_size st2 \<le> decompressed_buffer_size st1"
    and "decompressed_data_index st1 \<le> decompressed_buffer_size st2"
    and "1 \<le> d" "d \<le> decompressed_data_index st1"
  shows "sim (copy_run n d st1) (copy_run n d st2) \<or>
         cut_short st1 st2 (copy_run n d st1) (copy_run n d st2)"
  using assms
proof (induction n arbitrary: st1 st2)
  case 0
  then show ?case by simp
next
  case (Suc n)
  note i = sim_index [OF Suc.prems(1)]
  show ?case
  proof (cases "decompressed_data_index st2 \<ge> decompressed_buffer_size st2")
    case True
    then have r2: "copy_run (Suc n) d st2 = st2" by simp
    show ?thesis
    proof (cases "decompressed_data_index st1 \<ge> decompressed_buffer_size st1")
      case True
      then have r1: "copy_run (Suc n) d st1 = st1" by simp
      show ?thesis
        unfolding r1 r2 using Suc.prems(1) by simp
    next
      case False
      have "cut_short st1 st2 (copy_run (Suc n) d st1) st2"
        using Suc.prems True False i
        by (intro sim_cut copy_run_forward) simp_all
      then show ?thesis
        unfolding r2 by (simp del: copy_run.simps)
    qed
  next
    case False
    then have room2: "decompressed_data_index st2 < decompressed_buffer_size st2" by simp
    with Suc.prems(2) i have room1: "decompressed_data_index st1 < decompressed_buffer_size st1"
      by simp
    define w where "w = mem st1 (decompressed_data_ptr st1 + decompressed_data_index st1 - d)"
    have "decompressed_data_index st1 - d < decompressed_data_index st1"
      using Suc.prems(4,5) by simp
    then have "mem st2 (decompressed_data_ptr st2 + (decompressed_data_index st1 - d)) =
          mem st1 (decompressed_data_ptr st1 + (decompressed_data_index st1 - d))"
      using Suc.prems(1) by (simp add: sim_def agree_upto_def)
    then have w2: "mem st2 (decompressed_data_ptr st2 + decompressed_data_index st2 - d) = w"
      using Suc.prems(5) i by (simp add: w_def)
    have r1: "copy_run (Suc n) d st1 = copy_run n d (put_byte w st1)"
      using room1 by (simp add: w_def)
    have r2: "copy_run (Suc n) d st2 = copy_run n d (put_byte w st2)"
      using room2 by (simp add: w2)
    have s: "sim (put_byte w st1) (put_byte w st2)"
      by (rule sim_put_byte [OF Suc.prems(1)])
    have c: "decompressed_buffer_size (put_byte w st2) \<le> decompressed_buffer_size (put_byte w st1)"
      using Suc.prems(2) by simp
    have e: "decompressed_data_index (put_byte w st1) \<le> decompressed_buffer_size (put_byte w st2)"
      using room2 i by simp
    have f: "d \<le> decompressed_data_index (put_byte w st1)"
      using Suc.prems(5) by simp
    from Suc.IH [OF s c e Suc.prems(4) f] show ?thesis
      unfolding r1 r2 by (simp add: cut_short_def)
  qed
qed

lemma cut_short_sizes:
  assumes "cut_short a1 a2 s1 s2"
    and "decompressed_buffer_size a1 = decompressed_buffer_size st1"
    and "decompressed_buffer_size a2 = decompressed_buffer_size st2"
  shows "cut_short st1 st2 s1 s2"
  using assms by (simp add: cut_short_def)

lemma cut_short_forward:
  assumes "cut_short st1 st2 b1 b2" "writes_forward b1 s1"
  shows "cut_short st1 st2 s1 b2"
  using assms by (auto simp add: cut_short_def writes_forward_def agree_upto_def)

lemma keeps_output_size:
  "keeps_output st st' \<Longrightarrow> decompressed_buffer_size st' = decompressed_buffer_size st"
  "keeps_output st st' \<Longrightarrow> decompressed_data_index st' = decompressed_data_index st"
  by (simp_all add: keeps_output_def)

lemma apply_sequence_sim:
  assumes "sim b1 b2"
    and "decompressed_buffer_size b2 \<le> decompressed_buffer_size b1"
    and "decompressed_data_index b1 \<le> decompressed_buffer_size b2"
  shows "(fst (apply_sequence len offset b2) = fst (apply_sequence len offset b1) \<and>
          sim (snd (apply_sequence len offset b1)) (snd (apply_sequence len offset b2))) \<or>
         (fst (apply_sequence len offset b2) = None \<and>
          cut_short b1 b2 (snd (apply_sequence len offset b1)) (snd (apply_sequence len offset b2)))"
proof (cases "offset = 0 \<or> unat offset > decompressed_data_index b1")
  case True
  then show ?thesis
    using assms(1) sim_index [OF assms(1)] by (auto simp add: apply_sequence_def)
next
  case False
  then have d: "1 \<le> unat offset" "unat offset \<le> decompressed_data_index b1"
    by (simp_all add: unat_gt_0 Suc_le_eq)
  from copy_run_sim [OF assms d, of "unat len"] False sim_index [OF assms(1)]
  show ?thesis
    by (auto simp add: apply_sequence_def)
qed

lemma decrunch_body_sim:
  assumes s: "sim st1 st2"
    and c: "decompressed_buffer_size st2 \<le> decompressed_buffer_size st1"
    and i: "decompressed_data_index st1 \<le> decompressed_buffer_size st2"
  shows "(fst (decrunch_body st2) = fst (decrunch_body st1) \<and>
          sim (snd (decrunch_body st1)) (snd (decrunch_body st2))) \<or>
         (fst (decrunch_body st2) = None \<and>
          cut_short st1 st2 (snd (decrunch_body st1)) (snd (decrunch_body st2)))"
proof -
  define cmd where "cmd = fst (get_coded_command_val st1)"
  define a1 where "a1 = snd (get_coded_command_val st1)"
  define a2 where "a2 = snd (get_coded_command_val st2)"
  note g = sim_get_coded_command_val [OF s, folded cmd_def a1_def a2_def]
  have k1: "decompressed_buffer_size a1 = decompressed_buffer_size st1"
    "decompressed_data_index a1 = decompressed_data_index st1"
    unfolding a1_def
    by (rule keeps_output_size [OF only_reads_keeps [OF get_coded_command_val_reads]])+
  have ca: "decompressed_buffer_size a2 \<le> decompressed_buffer_size a1"
    and ia: "decompressed_data_index a1 \<le> decompressed_buffer_size a2"
    using c i g(3) k1 by simp_all
  show ?thesis
  proof (cases "cmd = COMMAND_EOS_MARKER")
    case True
    then show ?thesis
      using g(1,2)
      by (simp add: decrunch_body_def case_prod_unfold cmd_def [symmetric] a1_def [symmetric]
          a2_def [symmetric])
  next
    case eos: False
    show ?thesis
    proof (cases "cmd AND 3 = 0")
      case True
      define n where "n = unat (ucast (drop_bit 2 cmd) + 1 :: 16 word)"
      have b1: "decrunch_body st1 = literal_run n a1"
        using eos True
        by (simp add: decrunch_body_def case_prod_unfold cmd_def [symmetric] a1_def [symmetric]
            Let_def n_def)
      have b2: "decrunch_body st2 = literal_run n a2"
        using eos True g(1)
        by (simp add: decrunch_body_def case_prod_unfold a2_def [symmetric] Let_def n_def)
      from literal_run_sim [OF g(2) ca ia, of n] show ?thesis
        unfolding b1 b2 using cut_short_sizes [OF _ k1(1) g(3)] by blast
    next
      case False
      define t where "t = cmd AND 3"
      define v where "v = drop_bit 2 cmd"
      define r where "r = fst (sequence_params t v a1)"
      define b1 where "b1 = snd (sequence_params t v a1)"
      define b2 where "b2 = snd (sequence_params t v a2)"
      note q = sim_sequence_params [OF g(2), of t v, folded r_def b1_def b2_def]
      have kb: "decompressed_buffer_size b1 = decompressed_buffer_size a1"
        "decompressed_data_index b1 = decompressed_data_index a1"
        unfolding b1_def by (rule keeps_output_size [OF sequence_params_keeps])+
      have cb: "decompressed_buffer_size b2 \<le> decompressed_buffer_size b1"
        and ib: "decompressed_data_index b1 \<le> decompressed_buffer_size b2"
        using ca ia q(3) kb by simp_all
      have body1: "decrunch_body st1 =
          (case r of Inl e \<Rightarrow> (Some e, b1) | Inr (len, offset) \<Rightarrow> apply_sequence len offset b1)"
        using eos False
        by (simp add: decrunch_body_def case_prod_unfold cmd_def [symmetric] a1_def [symmetric]
            Let_def t_def [symmetric] v_def [symmetric] r_def b1_def split: sum.split)
      have body2: "decrunch_body st2 =
          (case r of Inl e \<Rightarrow> (Some e, b2) | Inr (len, offset) \<Rightarrow> apply_sequence len offset b2)"
        using eos False g(1) q(1)
        by (simp add: decrunch_body_def case_prod_unfold a2_def [symmetric]
            Let_def t_def [symmetric] v_def [symmetric] r_def b2_def split: sum.split)
      show ?thesis
      proof (cases r)
        case (Inl e)
        then show ?thesis
          unfolding body1 body2 using q(2) by simp
      next
        case (Inr lo)
        obtain len offset where lo: "lo = (len, offset)" by (cases lo)
        have sb: "decompressed_buffer_size b1 = decompressed_buffer_size st1"
          "decompressed_buffer_size b2 = decompressed_buffer_size st2"
          using kb k1 q(3) g(3) by simp_all
        from apply_sequence_sim [OF q(2) cb ib, of len offset] show ?thesis
          unfolding body1 body2 Inr lo using cut_short_sizes [OF _ sb] by auto
      qed
    qed
  qed
qed

lemma decrunch_loop_at_capacity:
  "decompressed_buffer_size st \<le> decompressed_data_index st \<Longrightarrow>
     decrunch_loop st = Some (Loop_condition, st)"
  by (subst decrunch_loop.simps) simp

lemma decrunch_loop_step:
  "decompressed_data_index st < decompressed_buffer_size st \<Longrightarrow>
     decrunch_loop st =
       (case fst (decrunch_body st) of
          Some e \<Rightarrow> Some (e, snd (decrunch_body st))
        | None \<Rightarrow> decrunch_loop (snd (decrunch_body st)))"
  by (subst decrunch_loop.simps) (simp add: case_prod_unfold split: option.split)

lemma same_core_bits: "same_core st1 st2 \<Longrightarrow> remaining_bits st2 = remaining_bits st1"
  by (simp add: same_core_def remaining_bits_def)

lemma decrunch_loop_sim:
  assumes "sim st1 st2"
    and "decompressed_buffer_size st2 \<le> decompressed_buffer_size st1"
    and "decompressed_data_index st1 \<le> decompressed_buffer_size st2"
    and "decrunch_loop st1 = Some (e1, s1)"
    and "decrunch_loop st2 = Some (e2, s2)"
  shows "(e2 = e1 \<and> sim s1 s2) \<or> (e2 = Loop_condition \<and> cut_short st1 st2 s1 s2)"
  using assms
proof (induction st1 arbitrary: st2 rule: measure_induct_rule [where f = remaining_bits])
  case (less st1)
  note i = sim_index [OF less.prems(1)]
  show ?case
  proof (cases "decompressed_data_index st1 < decompressed_buffer_size st2")
    case False
    with less.prems(3) have full: "decompressed_data_index st1 = decompressed_buffer_size st2"
      by simp
    have r2: "e2 = Loop_condition" "s2 = st2"
      using less.prems(5) decrunch_loop_at_capacity [of st2] full i by simp_all
    show ?thesis
    proof (cases "decompressed_buffer_size st2 < decompressed_buffer_size st1")
      case True
      have "cut_short st1 st2 s1 st2"
        by (rule sim_cut [OF less.prems(1) decrunch_loop_forward [OF less.prems(4)] full True])
      with r2 show ?thesis by simp
    next
      case False
      with less.prems(2) full have "decompressed_buffer_size st1 \<le> decompressed_data_index st1"
        by simp
      then have "e1 = Loop_condition" "s1 = st1"
        using less.prems(4) decrunch_loop_at_capacity [of st1] by simp_all
      with r2 less.prems(1) show ?thesis by simp
    qed
  next
    case True
    then have room2: "decompressed_data_index st2 < decompressed_buffer_size st2"
      and room1: "decompressed_data_index st1 < decompressed_buffer_size st1"
      using i less.prems(2) by simp_all
    define b1 where "b1 = snd (decrunch_body st1)"
    define b2 where "b2 = snd (decrunch_body st2)"
    note l1 = decrunch_loop_step [OF room1, folded b1_def]
    note l2 = decrunch_loop_step [OF room2, folded b2_def]
    have f1: "writes_forward st1 b1"
      unfolding b1_def by (rule decrunch_body_forward)
    have f2: "writes_forward st2 b2"
      unfolding b2_def by (rule decrunch_body_forward)
    have sz: "decompressed_buffer_size b1 = decompressed_buffer_size st1"
      "decompressed_buffer_size b2 = decompressed_buffer_size st2"
      using f1 f2 by (simp_all add: writes_forward_size)
    from decrunch_body_sim [OF less.prems(1,2,3), folded b1_def b2_def]
    show ?thesis
    proof
      assume lock: "fst (decrunch_body st2) = fst (decrunch_body st1) \<and> sim b1 b2"
      show ?thesis
      proof (cases "fst (decrunch_body st1)")
        case (Some e)
        with lock less.prems(4,5) show ?thesis
          by (simp add: l1 l2)
      next
        case None
        have d1: "decrunch_loop b1 = Some (e1, s1)"
          using less.prems(4) None by (simp add: l1)
        have d2: "decrunch_loop b2 = Some (e2, s2)"
          using less.prems(5) None lock by (simp add: l2)
        have m: "remaining_bits b1 < remaining_bits st1"
          unfolding b1_def by (rule decrunch_body_consumes [OF None])
        have ib: "decompressed_data_index b1 \<le> decompressed_buffer_size b2"
          using f2 room2 sim_index [of b1 b2] lock by (simp add: writes_forward_def)
        have cb: "decompressed_buffer_size b2 \<le> decompressed_buffer_size b1"
          using sz less.prems(2) by simp
        from less.IH [OF m _ cb ib d1 d2] lock
        show ?thesis
          using cut_short_sizes [OF _ sz] by blast
      qed
    next
      assume cut: "fst (decrunch_body st2) = None \<and> cut_short st1 st2 b1 b2"
      then have "decompressed_buffer_size b2 \<le> decompressed_data_index b2"
        by (simp add: cut_short_def sz)
      then have "decrunch_loop b2 = Some (Loop_condition, b2)"
        by (rule decrunch_loop_at_capacity)
      with less.prems(5) cut have r2: "e2 = Loop_condition" "s2 = b2"
        by (simp_all add: l2)
      have "cut_short st1 st2 s1 b2"
      proof (cases "fst (decrunch_body st1)")
        case (Some e)
        with less.prems(4) have "s1 = b1" by (simp add: l1)
        with cut show ?thesis by simp
      next
        case None
        with less.prems(4) have "decrunch_loop b1 = Some (e1, s1)" by (simp add: l1)
        from cut_short_forward [OF _ decrunch_loop_forward [OF this]] cut
        show ?thesis by simp
      qed
      with r2 show ?thesis by simp
    qed
  qed
qed

lemma exod_reset_sim:
  "sim (exod_reset g1 in_data p1 c1) (exod_reset g2 in_data p2 c2)"
  by (simp add: sim_def same_core_def agree_upto_def exod_reset_def)

lemma exod_reset_fields [simp]:
  "decompressed_buffer_size (exod_reset g in_data p c) = c"
  "decompressed_data_index (exod_reset g in_data p c) = 0"
  "decompressed_data_ptr (exod_reset g in_data p c) = p"
  "mem (exod_reset g in_data p c) = mem g"
  by (simp_all add: exod_reset_def)

lemma sim_produced:
  assumes "sim s1 s2" "decompressed_data_ptr s1 = p1" "decompressed_data_ptr s2 = p2"
  shows "map (\<lambda>i. mem s2 (p2 + i)) [0..<decompressed_data_index s2] =
         map (\<lambda>i. mem s1 (p1 + i)) [0..<decompressed_data_index s1]"
  using assms by (simp add: sim_def agree_upto_def same_core_def)

lemma writes_forward_ptr:
  "writes_forward st st' \<Longrightarrow> decompressed_data_ptr st' = decompressed_data_ptr st"
  by (simp add: writes_forward_def)

text \<open>
  Claim C9, as the code has it. Two calls of \<open>exod_decrunch\<close> that run one after the
  other (each from its prologue to its end) on the same input and with the same
  capacity end at the same exit and produce the same bytes, whatever the static
  variables and the memory hold when each call starts and wherever the two buffers lie.
\<close>

theorem sequential_calls_agree:
  "produced out_buffer2 (exod_decrunch g2 in_data out_buffer2 out_max_len) =
   produced out_buffer1 (exod_decrunch g1 in_data out_buffer1 out_max_len)"
proof -
  define st1 where "st1 = exod_reset g1 in_data out_buffer1 out_max_len"
  define st2 where "st2 = exod_reset g2 in_data out_buffer2 out_max_len"
  obtain e1 s1 where r1: "decrunch_loop st1 = Some (e1, s1)"
    using decrunch_loop_returns [of st1] by auto
  obtain e2 s2 where r2: "decrunch_loop st2 = Some (e2, s2)"
    using decrunch_loop_returns [of st2] by auto
  have s: "sim st1 st2"
    unfolding st1_def st2_def by (rule exod_reset_sim)
  have "(e2 = e1 \<and> sim s1 s2) \<or> (e2 = Loop_condition \<and> cut_short st1 st2 s1 s2)"
    by (rule decrunch_loop_sim [OF s _ _ r1 r2]) (simp_all add: st1_def st2_def)
  then have e: "e2 = e1" and ss: "sim s1 s2"
    by (auto simp add: cut_short_def st1_def st2_def)
  have p1: "decompressed_data_ptr s1 = out_buffer1"
    using writes_forward_ptr [OF decrunch_loop_forward [OF r1]] by (simp add: st1_def)
  have p2: "decompressed_data_ptr s2 = out_buffer2"
    using writes_forward_ptr [OF decrunch_loop_forward [OF r2]] by (simp add: st2_def)
  show ?thesis
    using r1 r2 e sim_produced [OF ss p1 p2]
    by (simp add: produced_def exod_decrunch_def st1_def [symmetric] st2_def [symmetric])
qed

text \<open>
  Claim C9 as stated fails for calls that overlap in time: the working state is in
  static variables, shared by all calls. When call A is preempted after its prologue and
  call B runs in between, B produces "Hello" and ends in the gamma decoder, while A finds
  the stream used up when it resumes, ends at the end-of-stream \<open>break\<close> and leaves its
  own buffer untouched.
\<close>

theorem interleaved_calls_differ:
  "preempted_after_prologue power_on_state demo_crunched_data 0 256 8 =
     Some ((Break_EOS, [0, 0, 0, 0, 0, 0, 0, 0]),
           (Return_gamma_length, [0x48, 0x65, 0x6C, 0x6C, 0x6F, 0, 0, 0]))"
  by code_simp






section \<open>The "Hello" stream\<close>

lemma hello_at_6:
  "summary (exod_decrunch power_on_state demo_crunched_data 0 6) =
     Some (Return_gamma_length, 5, hello, 0)"
  by code_simp

lemma hello_at_5:
  "summary (exod_decrunch power_on_state demo_crunched_data 0 5) =
     Some (Loop_condition, 5, hello, 10)"
  by code_simp

lemma sim_summary:
  assumes "sim s1 s2"
  shows "map (\<lambda>i. mem s2 (decompressed_data_ptr s2 + i)) [0..<decompressed_data_index s2] =
         map (\<lambda>i. mem s1 (decompressed_data_ptr s1 + i)) [0..<decompressed_data_index s1]"
    and "decompressed_data_index s2 = decompressed_data_index s1"
    and "remaining_bits s2 = remaining_bits s1"
  using assms by (simp_all add: sim_def agree_upto_def same_core_def remaining_bits_def)

lemma hello_any_capacity:
  assumes r2: "summary (exod_decrunch power_on_state demo_crunched_data 0 c2) = Some (e2, 5, hello, k)"
    and c: "c2 \<le> cap" and e2: "e2 = Loop_condition \<Longrightarrow> cap = c2"
  shows "\<exists>s. exod_decrunch g demo_crunched_data p cap = Some (e2, s) \<and>
             decompressed_data_index s = 5 \<and>
             map (\<lambda>i. mem s (p + i)) [0..<5] = hello \<and>
             remaining_bits s = k \<and>
             (\<forall>a. a < p \<or> p + 5 \<le> a \<longrightarrow> mem s a = mem g a)"
proof -
  define st1 where "st1 = exod_reset g demo_crunched_data p cap"
  define st2 where "st2 = exod_reset power_on_state demo_crunched_data 0 c2"
  obtain e1 s1 where r1: "decrunch_loop st1 = Some (e1, s1)"
    using decrunch_loop_returns [of st1] by auto
  from r2 obtain s2 where l2: "decrunch_loop st2 = Some (e2, s2)"
    and i2: "decompressed_data_index s2 = 5"
    and b2: "map (\<lambda>i. mem s2 (decompressed_data_ptr s2 + i)) [0..<decompressed_data_index s2] = hello"
    and k2: "remaining_bits s2 = k"
    by (auto simp add: summary_def exod_decrunch_def st2_def)
  have w1: "writes_forward st1 s1"
    by (rule decrunch_loop_forward [OF r1])
  have p1: "decompressed_data_ptr s1 = p"
    using writes_forward_ptr [OF w1] by (simp add: st1_def)
  have s: "sim st1 st2"
    unfolding st1_def st2_def by (rule exod_reset_sim)
  have "(e2 = e1 \<and> sim s1 s2) \<or> (e2 = Loop_condition \<and> cut_short st1 st2 s1 s2)"
    using c by (intro decrunch_loop_sim [OF s _ _ r1 l2]) (simp_all add: st1_def st2_def)
  then have e: "e1 = e2" and ss: "sim s1 s2"
    using e2 by (auto simp add: cut_short_def st1_def st2_def)
  note m = sim_summary [OF ss]
  have i1: "decompressed_data_index s1 = 5"
    using m(2) i2 by simp
  have b1: "map (\<lambda>i. mem s1 (p + i)) [0..<5] = hello"
    using m(1) b2 i1 p1 by simp
  have f: "\<forall>a. a < p \<or> p + 5 \<le> a \<longrightarrow> mem s1 a = mem g a"
    using w1 i1 by (auto simp add: writes_forward_def st1_def)
  show ?thesis
    using r1 e i1 b1 f m(3) k2
    by (simp add: exod_decrunch_def st1_def [symmetric])
qed

text \<open>
  Claim C1, as the code has it. With a capacity of at least 5, the stream of the sketch
  decodes to exactly the five bytes "Hello", from any state of the static variables and
  into a buffer anywhere, and memory outside these five bytes is unchanged. With a
  capacity of 6 or more the decode ends in \<open>get_gamma_coded_value\<close>, at the \<open>return\<close> after
  the gamma-coded length, with every bit of the stream consumed. With a capacity of
  exactly 5 it ends at the loop condition, with 10 bits (the prefix 1111 among them)
  unread.
\<close>

theorem hello_vector:
  assumes "5 \<le> cap"
  shows "\<exists>s. exod_decrunch g demo_crunched_data p cap =
               Some (if cap = 5 then Loop_condition else Return_gamma_length, s) \<and>
             decompressed_data_index s = 5 \<and>
             map (\<lambda>i. mem s (p + i)) [0..<5] = hello \<and>
             remaining_bits s = (if cap = 5 then 10 else 0) \<and>
             (\<forall>a. a < p \<or> p + 5 \<le> a \<longrightarrow> mem s a = mem g a)"
proof (cases "cap = 5")
  case True
  then show ?thesis
    using hello_any_capacity [OF hello_at_5, of cap g p] by simp
next
  case False
  with assms have "6 \<le> cap" by simp
  then show ?thesis
    using False hello_any_capacity [OF hello_at_6, of cap g p] by simp
qed

theorem hello_vector_witness:
  "(5 :: nat) \<le> 256 \<and>
   summary (exod_decrunch power_on_state demo_crunched_data 0 256) =
     Some (Return_gamma_length, 5, hello, 0)"
proof -
  have p: "decompressed_data_ptr s = 0"
    if "exod_decrunch power_on_state demo_crunched_data 0 256 = Some (e, s)" for e s
    using writes_forward_ptr [OF decrunch_loop_forward, of _ e s] that
    by (simp add: exod_decrunch_def)
  from hello_vector [of 256 power_on_state 0] show ?thesis
    by (auto simp add: summary_def p)
qed

text \<open>
  Claim C1 as stated fails at the capacity 5 it includes: the buffer is full after the
  literal run, the loop condition ends the decode, and no gamma sequence is attempted.
\<close>

theorem hello_at_exact_capacity_stops_on_full_buffer:
  "summary (exod_decrunch power_on_state demo_crunched_data 0 5) =
     Some (Loop_condition, 5, hello, 10)"
  by code_simp

end
